theory Spec2Isabelle
  imports Main "HOL-Library.FSet" "HOL-Library.Multiset"
begin

section \<open>Data model\<close>

text \<open>
  Node identifiers are strings. An edge map is a Python \<open>Dict[str, List[str]]\<close>: every
  node is mapped to the list of its parents. Python dictionaries keep insertion order and
  that order decides the order of several results, so a dictionary is an association list
  in insertion order; a well-formed dictionary has distinct keys, which the theorems that
  need it assume as \<open>distinct (dict_keys edge_map)\<close>.

  Every function of \<open>whyzen_graph_utils\<close> takes the model and an optional \<open>edges\<close>
  dictionary; the functions below are the ones with the dictionary given, so that
  \<open>_get_edges\<close> returns it unchanged. Python's bound on the recursion depth is a resource
  limit and is not modelled.
\<close>

type_synonym node_name = string

type_synonym adjacency = "(node_name \<times> node_name list) list"

definition dict_keys :: "adjacency \<Rightarrow> node_name list" where
  "dict_keys d = map fst d"

text \<open>\<open>d.get(k, [])\<close>: the list stored under \<open>k\<close>, the empty list for an unknown key.\<close>

definition dict_get :: "adjacency \<Rightarrow> node_name \<Rightarrow> node_name list" where
  "dict_get d k = (case map_of d k of None \<Rightarrow> [] | Some v \<Rightarrow> v)"

section \<open>The children map\<close>

text \<open>
  One step of the inner loop of \<open>_build_children_map\<close>: if the parent is a key of
  \<open>children\<close> the child is appended to its list, otherwise a new entry is created at the
  end of the dictionary.
\<close>

fun append_child :: "node_name \<Rightarrow> node_name \<Rightarrow> adjacency \<Rightarrow> adjacency" where
  "append_child p c [] = [(p, [c])]"
| "append_child p c ((k, v) # d) =
     (if k = p then (k, v @ [c]) # d else (k, v) # append_child p c d)"

text \<open>
  \<open>_build_children_map\<close>: an empty list for every key of the edge map, then every child
  appended to the list of each of its parents, in item order of the edge map and, for one
  child, in the order of its parent list.
\<close>

definition build_children_map :: "adjacency \<Rightarrow> adjacency" where
  "build_children_map edges =
     fold (\<lambda>(child_name, parent_names) children.
             fold (\<lambda>parent_name ch. append_child parent_name child_name ch) parent_names children)
          edges (map (\<lambda>(name, _). (name, [])) edges)"

section \<open>Direct neighbours\<close>

text \<open>
  \<open>get_parents\<close> and \<open>get_children\<close> return a copy of the list found, or of the empty
  default; a copy of an immutable value is the value.
\<close>

definition get_parents :: "adjacency \<Rightarrow> node_name \<Rightarrow> node_name list" where
  "get_parents edge_map node_name = dict_get edge_map node_name"

definition get_children :: "adjacency \<Rightarrow> node_name \<Rightarrow> node_name list" where
  "get_children edge_map node_name = dict_get (build_children_map edge_map) node_name"

section \<open>Depth-first traversal\<close>

text \<open>
  The nodes that an adjacency dictionary mentions, as keys or inside a list. Only they can
  be visited, which bounds every traversal.
\<close>

definition mentioned :: "adjacency \<Rightarrow> node_name set" where
  "mentioned d = set (map fst d) \<union> (\<Union>e \<in> set d. set (snd e))"

text \<open>
  The inner function \<open>traverse\<close> of \<open>get_ancestors\<close> and of \<open>get_descendants\<close> is a
  \<open>for\<close> loop over the neighbours of the current node, which marks and records each
  neighbour not yet visited and recurses into it before it goes on with the next one.
  The state is the pair of the \<open>visited\<close> set and the result list; \<open>traverse m ps st\<close>
  runs the loop over the neighbour list \<open>ps\<close>, and the recursive call \<open>traverse(parent)\<close>
  is the loop over \<open>m.get(parent, [])\<close>.
\<close>

function traverse :: "adjacency \<Rightarrow> node_name list \<Rightarrow> node_name set \<times> node_name list \<Rightarrow> node_name set \<times> node_name list" where
  "traverse m [] st = st"
| "traverse m (p # ps) (visited, acc) =
     (if p \<notin> visited
      then traverse m ps (traverse m (dict_get m p) (insert p visited, acc @ [p]))
      else traverse m ps (visited, acc))"
  by pat_completeness auto

lemma dict_get_mentioned: "set (dict_get m k) \<subseteq> mentioned m"
proof (cases "map_of m k")
  case None
  then show ?thesis by (simp add: dict_get_def)
next
  case (Some v)
  then have "(k, v) \<in> set m" by (rule map_of_SomeD)
  then have "set v \<subseteq> mentioned m" by (force simp: mentioned_def)
  with Some show ?thesis by (simp add: dict_get_def)
qed

lemma finite_mentioned: "finite (mentioned m)"
  by (simp add: mentioned_def)

lemma traverse_dom_visited:
  "traverse_dom (m, ps, st) \<Longrightarrow> fst st \<subseteq> fst (traverse m ps st)"
proof (induction m ps st rule: traverse.pinduct)
  case (1 m st)
  then show ?case by (simp add: traverse.psimps)
next
  case (2 m p ps visited acc)
  show ?case
  proof (cases "p \<in> visited")
    case True
    with 2 show ?thesis by (simp add: traverse.psimps)
  next
    case False
    with 2 have "insert p visited \<subseteq> fst (traverse m (dict_get m p) (insert p visited, acc @ [p]))"
      by simp
    moreover from 2 False
    have "fst (traverse m (dict_get m p) (insert p visited, acc @ [p]))
            \<subseteq> fst (traverse m ps (traverse m (dict_get m p) (insert p visited, acc @ [p])))"
      by simp
    ultimately show ?thesis using 2(1) False by (auto simp: traverse.psimps)
  qed
qed

termination traverse
proof (relation "inv_image (less_than <*lex*> less_than)
         (\<lambda>(m, ps, st). (card ((mentioned m \<union> set ps) - fst st), length ps))")
  show "wf (inv_image (less_than <*lex*> less_than)
         (\<lambda>(m, ps, st). (card ((mentioned m \<union> set ps) - fst st), length ps)))"
    by (intro wf_inv_image wf_lex_prod wf_less_than)
next
  fix m :: adjacency and p :: node_name and ps :: "node_name list" and visited :: "node_name set" and acc :: "node_name list"
  assume "p \<notin> visited"
  have "(mentioned m \<union> set (dict_get m p)) - insert p visited
          \<subset> (mentioned m \<union> set (p # ps)) - visited"
    using dict_get_mentioned [of m p] \<open>p \<notin> visited\<close> by auto
  then have "card ((mentioned m \<union> set (dict_get m p)) - insert p visited)
          < card ((mentioned m \<union> set (p # ps)) - visited)"
    by (intro psubset_card_mono) (simp_all add: finite_mentioned)
  then show "((m, dict_get m p, insert p visited, acc @ [p]), m, p # ps, visited, acc)
          \<in> inv_image (less_than <*lex*> less_than)
              (\<lambda>(m, ps, st). (card ((mentioned m \<union> set ps) - fst st), length ps))"
    by simp
next
  fix m :: adjacency and p :: node_name and ps :: "node_name list" and visited :: "node_name set" and acc :: "node_name list"
  assume "p \<notin> visited"
    and dom: "traverse_dom (m, dict_get m p, insert p visited, acc @ [p])"
  let ?st = "traverse m (dict_get m p) (insert p visited, acc @ [p])"
  have "insert p visited \<subseteq> fst ?st"
    using traverse_dom_visited [OF dom] by simp
  then have "(mentioned m \<union> set ps) - fst ?st \<subset> (mentioned m \<union> set (p # ps)) - visited"
    using \<open>p \<notin> visited\<close> by auto
  then have "card ((mentioned m \<union> set ps) - fst ?st)
          < card ((mentioned m \<union> set (p # ps)) - visited)"
    by (intro psubset_card_mono) (simp_all add: finite_mentioned)
  then show "((m, ps, ?st), m, p # ps, visited, acc)
          \<in> inv_image (less_than <*lex*> less_than)
              (\<lambda>(m, ps, st). (card ((mentioned m \<union> set ps) - fst st), length ps))"
    by simp
next
  fix m :: adjacency and p :: node_name and ps :: "node_name list" and visited :: "node_name set" and acc :: "node_name list"
  assume "\<not> p \<notin> visited"
  then have "(mentioned m \<union> set ps) - visited \<subseteq> (mentioned m \<union> set (p # ps)) - visited"
    by auto
  then have "card ((mentioned m \<union> set ps) - visited)
          \<le> card ((mentioned m \<union> set (p # ps)) - visited)"
    by (intro card_mono) (simp_all add: finite_mentioned)
  then show "((m, ps, visited, acc), m, p # ps, visited, acc)
          \<in> inv_image (less_than <*lex*> less_than)
              (\<lambda>(m, ps, st). (card ((mentioned m \<union> set ps) - fst st), length ps))"
    by auto
qed

text \<open>
  Both functions start with an empty \<open>visited\<close> set and an empty result list and call
  \<open>traverse(node_name)\<close>; the start node itself is not marked as visited.
\<close>

definition get_ancestors :: "adjacency \<Rightarrow> node_name \<Rightarrow> node_name list" where
  "get_ancestors edge_map node_name =
     snd (traverse edge_map (dict_get edge_map node_name) ({}, []))"

definition get_descendants :: "adjacency \<Rightarrow> node_name \<Rightarrow> node_name list" where
  "get_descendants edge_map node_name =
     (let children_map = build_children_map edge_map
      in snd (traverse children_map (dict_get children_map node_name) ({}, [])))"

section \<open>Breadth-first traversal with degrees\<close>

text \<open>
  The \<open>visited\<close> dictionary (name to degree, in insertion order) and the queue of
  \<open>(name, degree)\<close> pairs are both lists of pairs. A degree starts at 0 and only ever
  grows by one, so it is a natural number.

  \<open>discover\<close> is the \<open>for\<close> loop over the neighbours of the dequeued node: a neighbour
  that is not a key of \<open>visited\<close> is recorded at the next degree and appended to the queue.
\<close>

type_synonym degrees = "(node_name \<times> nat) list"

fun discover :: "nat \<Rightarrow> node_name list \<Rightarrow> degrees \<times> degrees \<Rightarrow> degrees \<times> degrees" where
  "discover d [] st = st"
| "discover d (p # ps) (visited, queue) =
     (if p \<notin> fst ` set visited
      then discover d ps (visited @ [(p, d + 1)], queue @ [(p, d + 1)])
      else discover d ps (visited, queue))"

text \<open>The loop only appends, the same pairs to both lists, for neighbours not known before.\<close>

lemma discover_new:
  "\<exists>new. discover d ps (visited, queue) = (visited @ new, queue @ new)
     \<and> fst ` set new = set ps - fst ` set visited"
proof (induction ps arbitrary: visited queue)
  case Nil
  show ?case by simp
next
  case (Cons p ps)
  show ?case
  proof (cases "p \<in> fst ` set visited")
    case True
    from Cons [of visited queue] obtain new
      where "discover d ps (visited, queue) = (visited @ new, queue @ new)"
        and "fst ` set new = set ps - fst ` set visited" by blast
    with True show ?thesis by auto
  next
    case False
    from Cons [of "visited @ [(p, d + 1)]" "queue @ [(p, d + 1)]"] obtain new
      where n: "discover d ps (visited @ [(p, d + 1)], queue @ [(p, d + 1)])
                  = ((visited @ [(p, d + 1)]) @ new, (queue @ [(p, d + 1)]) @ new)"
        and s: "fst ` set new = set ps - fst ` set (visited @ [(p, d + 1)])" by blast
    have "discover d (p # ps) (visited, queue) = (visited @ ((p, d + 1) # new), queue @ ((p, d + 1) # new))"
      using False n by simp
    moreover have "fst ` set ((p, d + 1) # new) = set (p # ps) - fst ` set visited"
      using False s by auto
    ultimately show ?thesis by blast
  qed
qed

text \<open>
  The \<open>while queue\<close> loop: the first pair is taken from the queue and its neighbours are
  discovered; the result is the \<open>visited\<close> dictionary when the queue is empty.
\<close>

function bfs_loop :: "adjacency \<Rightarrow> degrees \<Rightarrow> degrees \<Rightarrow> degrees" where
  "bfs_loop m visited [] = visited"
| "bfs_loop m visited ((current, d) # queue) =
     (case discover d (dict_get m current) (visited, queue) of
        (visited', queue') \<Rightarrow> bfs_loop m visited' queue')"
  by pat_completeness auto

termination bfs_loop
proof (relation "inv_image (less_than <*lex*> less_than)
         (\<lambda>(m, visited, queue). (card (mentioned m - fst ` set visited), length queue))")
  show "wf (inv_image (less_than <*lex*> less_than)
         (\<lambda>(m, visited, queue). (card (mentioned m - fst ` set visited), length (queue :: degrees))))"
    by (intro wf_inv_image wf_lex_prod wf_less_than)
next
  fix m :: adjacency and visited queue :: degrees and current :: node_name and d :: nat
    and visited' queue' :: degrees
  assume "(visited', queue') = discover d (dict_get m current) (visited, queue)"
  then have eq: "discover d (dict_get m current) (visited, queue) = (visited', queue')" by simp
  from discover_new [of d "dict_get m current" visited queue] eq obtain new
    where v: "visited' = visited @ new" and q: "queue' = queue @ new"
      and s: "fst ` set new = set (dict_get m current) - fst ` set visited" by auto
  show "((m, visited', queue'), m, visited, (current, d) # queue)
          \<in> inv_image (less_than <*lex*> less_than)
              (\<lambda>(m, visited, queue). (card (mentioned m - fst ` set visited), length queue))"
  proof (cases "new = []")
    case True
    with v q show ?thesis by simp
  next
    case False
    then obtain y where y: "y \<in> fst ` set new" by (cases new) auto
    with s have "y \<in> mentioned m" "y \<notin> fst ` set visited"
      using dict_get_mentioned [of m current] by auto
    then have "mentioned m - fst ` set visited' \<subset> mentioned m - fst ` set visited"
      using v y by auto
    then have "card (mentioned m - fst ` set visited') < card (mentioned m - fst ` set visited)"
      by (intro psubset_card_mono) (simp_all add: finite_mentioned)
    then show ?thesis by simp
  qed
qed

text \<open>
  A \<open>NodeWithDegree\<close> dictionary. The node objects come from the model, which the
  functions read with \<open>nodes.get(name)\<close>; here they are a parameter, a partial map from
  names to objects of any type. The items of \<open>visited\<close> are turned into records and sorted
  by degree; Python's \<open>sorted\<close> is stable, as is \<open>sort_key\<close>.
\<close>

record 'obj node_with_degree =
  node :: "'obj option"
  name :: node_name
  degree :: nat

definition with_degree_result :: "(node_name \<rightharpoonup> 'obj) \<Rightarrow> degrees \<Rightarrow> 'obj node_with_degree list" where
  "with_degree_result nodes visited =
     sort_key degree (map (\<lambda>(nm, d). \<lparr>node = nodes nm, name = nm, degree = d\<rparr>) visited)"

definition get_ancestors_with_degree ::
  "(node_name \<rightharpoonup> 'obj) \<Rightarrow> adjacency \<Rightarrow> node_name \<Rightarrow> 'obj node_with_degree list" where
  "get_ancestors_with_degree nodes edge_map node_name =
     with_degree_result nodes (bfs_loop edge_map [] [(node_name, 0)])"

definition get_descendants_with_degree ::
  "(node_name \<rightharpoonup> 'obj) \<Rightarrow> adjacency \<Rightarrow> node_name \<Rightarrow> 'obj node_with_degree list" where
  "get_descendants_with_degree nodes edge_map node_name =
     with_degree_result nodes (bfs_loop (build_children_map edge_map) [] [(node_name, 0)])"

section \<open>Cycle check\<close>

text \<open>
  The inner function \<open>can_reach(current, goal)\<close> of \<open>would_create_cycle\<close>, with the
  \<open>visited\<close> set it updates passed in and returned. \<open>can_reach_children\<close> is its \<open>for\<close>
  loop over the children of the current node, which returns at the first child that
  reaches the goal.
\<close>

function can_reach :: "adjacency \<Rightarrow> node_name \<Rightarrow> node_name \<Rightarrow> node_name set \<Rightarrow> bool \<times> node_name set"
  and can_reach_children :: "adjacency \<Rightarrow> node_name list \<Rightarrow> node_name \<Rightarrow> node_name set \<Rightarrow> bool \<times> node_name set" where
  "can_reach children_map current goal visited =
     (if current = goal then (True, visited)
      else if current \<in> visited then (False, visited)
      else can_reach_children children_map (dict_get children_map current) goal (insert current visited))"
| "can_reach_children children_map [] goal visited = (False, visited)"
| "can_reach_children children_map (child # rest) goal visited =
     (case can_reach children_map child goal visited of
        (found, visited') \<Rightarrow>
          if found then (True, visited')
          else can_reach_children children_map rest goal visited')"
  by pat_completeness auto

lemma can_reach_dom_visited:
  "can_reach_can_reach_children_dom (Inl (cm, current, goal, visited)) \<Longrightarrow>
     visited \<subseteq> snd (can_reach cm current goal visited)"
  "can_reach_can_reach_children_dom (Inr (cm, cs, goal, visited)) \<Longrightarrow>
     visited \<subseteq> snd (can_reach_children cm cs goal visited)"
proof (induction cm current goal visited and cm cs goal visited
    rule: can_reach_can_reach_children.pinduct)
  case (1 cm current goal visited)
  then show ?case by (auto simp: can_reach.psimps)
next
  case (2 cm goal visited)
  then show ?case by (simp add: can_reach_children.psimps)
next
  case (3 cm child rest goal visited)
  show ?case
  proof (cases "can_reach cm child goal visited")
    case (Pair b v)
    with 3 show ?thesis
      by (cases b) (auto simp: can_reach_children.psimps)
  qed
qed

termination can_reach
proof (relation "inv_image (less_than <*lex*> less_than)
         (\<lambda>a. case a of
            Inl (cm, current, goal, visited) \<Rightarrow> (card ((mentioned cm \<union> {current}) - visited), 0)
          | Inr (cm, cs, goal, visited) \<Rightarrow> (card ((mentioned cm \<union> set cs) - visited), length cs))")
  show "wf (inv_image (less_than <*lex*> less_than)
         (\<lambda>a. case a of
            Inl (cm, current, goal, visited) \<Rightarrow> (card ((mentioned cm \<union> {current}) - visited), 0)
          | Inr (cm :: adjacency, cs :: node_name list, goal :: node_name, visited) \<Rightarrow>
              (card ((mentioned cm \<union> set cs) - visited), length cs)))"
    by (intro wf_inv_image wf_lex_prod wf_less_than)
next
  fix cm :: adjacency and current goal :: node_name and visited :: "node_name set"
  assume "current \<noteq> goal" "current \<notin> visited"
  have "(mentioned cm \<union> set (dict_get cm current)) - insert current visited
          \<subset> (mentioned cm \<union> {current}) - visited"
    using dict_get_mentioned [of cm current] \<open>current \<notin> visited\<close> by auto
  then have "card ((mentioned cm \<union> set (dict_get cm current)) - insert current visited)
          < card ((mentioned cm \<union> {current}) - visited)"
    by (intro psubset_card_mono) (simp_all add: finite_mentioned)
  then show "(Inr (cm, dict_get cm current, goal, insert current visited), Inl (cm, current, goal, visited))
          \<in> inv_image (less_than <*lex*> less_than)
         (\<lambda>a. case a of
            Inl (cm, current, goal, visited) \<Rightarrow> (card ((mentioned cm \<union> {current}) - visited), 0)
          | Inr (cm, cs, goal, visited) \<Rightarrow> (card ((mentioned cm \<union> set cs) - visited), length cs))"
    by simp
next
  fix cm :: adjacency and child goal :: node_name and rest :: "node_name list" and visited :: "node_name set"
  have "(mentioned cm \<union> {child}) - visited \<subseteq> (mentioned cm \<union> set (child # rest)) - visited"
    by auto
  then have "card ((mentioned cm \<union> {child}) - visited)
          \<le> card ((mentioned cm \<union> set (child # rest)) - visited)"
    by (intro card_mono) (simp_all add: finite_mentioned)
  then show "(Inl (cm, child, goal, visited), Inr (cm, child # rest, goal, visited))
          \<in> inv_image (less_than <*lex*> less_than)
         (\<lambda>a. case a of
            Inl (cm, current, goal, visited) \<Rightarrow> (card ((mentioned cm \<union> {current}) - visited), 0)
          | Inr (cm, cs, goal, visited) \<Rightarrow> (card ((mentioned cm \<union> set cs) - visited), length cs))"
    by auto
next
  fix cm :: adjacency and child goal :: node_name and rest :: "node_name list"
    and visited visited' :: "node_name set" and found :: bool
  assume x: "(found, visited') = can_reach cm child goal visited"
    and dom: "can_reach_can_reach_children_dom (Inl (cm, child, goal, visited))"
  from can_reach_dom_visited(1) [OF dom] x have "visited \<subseteq> visited'"
    by (metis snd_conv)
  then have "(mentioned cm \<union> set rest) - visited' \<subseteq> (mentioned cm \<union> set (child # rest)) - visited"
    by auto
  then have "card ((mentioned cm \<union> set rest) - visited')
          \<le> card ((mentioned cm \<union> set (child # rest)) - visited)"
    by (intro card_mono) (simp_all add: finite_mentioned)
  then show "(Inr (cm, rest, goal, visited'), Inr (cm, child # rest, goal, visited))
          \<in> inv_image (less_than <*lex*> less_than)
         (\<lambda>a. case a of
            Inl (cm, current, goal, visited) \<Rightarrow> (card ((mentioned cm \<union> {current}) - visited), 0)
          | Inr (cm, cs, goal, visited) \<Rightarrow> (card ((mentioned cm \<union> set cs) - visited), length cs))"
    by auto
qed

text \<open>
  A self-loop is a cycle; otherwise the edge closes a cycle when the target reaches the
  source over the children map.
\<close>

definition would_create_cycle :: "adjacency \<Rightarrow> node_name \<Rightarrow> node_name \<Rightarrow> bool" where
  "would_create_cycle edge_map source_name target_name =
     (if source_name = target_name then True
      else fst (can_reach (build_children_map edge_map) target_name source_name {}))"

section \<open>Roots\<close>

text \<open>The names of the items of the edge map whose parent list is empty.\<close>

definition get_roots :: "adjacency \<Rightarrow> node_name list" where
  "get_roots edge_map = map fst (filter (\<lambda>(name, parents). parents = []) edge_map)"

section \<open>Topological sort\<close>

text \<open>
  \<open>topological_sort\<close> raises \<open>ValueError\<close> for a cycle, which is \<open>CycleError\<close> here; the
  subscript \<open>in_degree[child]\<close> raises \<open>KeyError\<close> for a child that is not a key of
  \<open>in_degree\<close>, so that is a second error of the model. The in-degree dictionary maps names
  to Python integers.
\<close>

datatype sort_error = CycleError | KeyError node_name

type_synonym in_degrees = "(node_name \<times> int) list"

text \<open>The assignment \<open>in_degree[k] = v\<close>.\<close>

fun dict_set :: "node_name \<Rightarrow> int \<Rightarrow> in_degrees \<Rightarrow> in_degrees" where
  "dict_set k v [] = [(k, v)]"
| "dict_set k v ((k', v') # d) = (if k' = k then (k, v) # d else (k', v') # dict_set k v d)"

text \<open>
  The \<open>for\<close> loop over the children of the node just taken from the queue: the in-degree
  of each child is decreased by one, and the child is appended to the queue when its
  in-degree has become zero.
\<close>

fun release_children ::
  "node_name list \<Rightarrow> in_degrees \<times> node_name list \<Rightarrow> sort_error + in_degrees \<times> node_name list" where
  "release_children [] st = Inr st"
| "release_children (child # rest) (in_degree, queue) =
     (case map_of in_degree child of
        None \<Rightarrow> Inl (KeyError child)
      | Some d \<Rightarrow>
          release_children rest
            (dict_set child (d - 1) in_degree, if d - 1 = 0 then queue @ [child] else queue))"

text \<open>
  The measure of the \<open>while\<close> loop: the length of the queue plus the sum of the positive
  in-degrees. One run of the inner loop does not increase it, and taking the node from the
  queue decreases it.
\<close>

definition pending :: "in_degrees \<Rightarrow> nat" where
  "pending in_degree = sum_list (map (\<lambda>(k, d). nat d) in_degree)"

lemma pending_dict_set:
  "map_of in_degree k = Some d \<Longrightarrow>
     pending (dict_set k v in_degree) + nat d = pending in_degree + nat v"
  by (induction in_degree) (auto simp: pending_def split: if_splits)

lemma release_children_measure:
  "release_children cs (in_degree, queue) = Inr (in_degree', queue') \<Longrightarrow>
     length queue' + pending in_degree' \<le> length queue + pending in_degree"
proof (induction cs arbitrary: in_degree queue)
  case Nil
  then show ?case by simp
next
  case (Cons c cs)
  then obtain d where d: "map_of in_degree c = Some d"
    by (cases "map_of in_degree c") auto
  let ?deg = "dict_set c (d - 1) in_degree"
  let ?q = "if d - 1 = 0 then queue @ [c] else queue"
  from Cons.prems d have "release_children cs (?deg, ?q) = Inr (in_degree', queue')"
    by simp
  then have "length queue' + pending in_degree' \<le> length ?q + pending ?deg"
    by (rule Cons.IH)
  moreover from pending_dict_set [OF d, of "d - 1"]
  have "length ?q + pending ?deg \<le> length queue + pending in_degree"
    by (auto split: if_splits)
  ultimately show ?case by linarith
qed

text \<open>
  The \<open>while queue\<close> loop: the first node is taken from the queue and appended to the
  result, then its children are released.
\<close>

function kahn_loop ::
  "adjacency \<Rightarrow> in_degrees \<Rightarrow> node_name list \<Rightarrow> node_name list \<Rightarrow> sort_error + node_name list" where
  "kahn_loop children_map in_degree [] result = Inr result"
| "kahn_loop children_map in_degree (n # queue) result =
     (case release_children (dict_get children_map n) (in_degree, queue) of
        Inl e \<Rightarrow> Inl e
      | Inr (in_degree', queue') \<Rightarrow> kahn_loop children_map in_degree' queue' (result @ [n]))"
  by pat_completeness auto

termination kahn_loop
proof (relation "measure (\<lambda>(cm, in_degree, queue, result). length queue + pending in_degree)")
  fix cm :: adjacency and in_degree in_degree' :: in_degrees and n :: node_name
    and queue queue' result :: "node_name list" and x :: "in_degrees \<times> node_name list"
  assume "release_children (dict_get cm n) (in_degree, queue) = Inr x" "(in_degree', queue') = x"
  then have "release_children (dict_get cm n) (in_degree, queue) = Inr (in_degree', queue')"
    by simp
  from release_children_measure [OF this]
  show "((cm, in_degree', queue', result @ [n]), cm, in_degree, n # queue, result)
          \<in> measure (\<lambda>(cm, in_degree, queue, result). length queue + pending in_degree)"
    by simp
qed simp

text \<open>
  The in-degrees are the lengths of the parent lists and the queue starts with the keys of
  in-degree zero, in key order. After the loop the sort fails when the result does not
  have as many entries as the edge map.
\<close>

definition topological_sort :: "adjacency \<Rightarrow> sort_error + node_name list" where
  "topological_sort edge_map =
     (let in_degree = map (\<lambda>(name, parents). (name, int (length parents))) edge_map;
          children_map = build_children_map edge_map;
          queue = map fst (filter (\<lambda>(name, d). d = 0) in_degree)
      in case kahn_loop children_map in_degree queue [] of
           Inl e \<Rightarrow> Inl e
         | Inr result \<Rightarrow> if length result \<noteq> length edge_map then Inl CycleError else Inr result)"

section \<open>Topology comparison\<close>

text \<open>
  An edge is a pair of source and target. The comparator takes Python sets, which are
  finite: they are finite sets here, \<open>len\<close> is \<open>fcard\<close> and set difference is \<open>|-|\<close>.
\<close>

type_synonym edge = "node_name \<times> node_name"

record topology_report =
  is_valid :: bool
  node_count_match :: bool
  edge_count_match :: bool
  missing_nodes_in_a :: "node_name fset"
  missing_nodes_in_b :: "node_name fset"
  missing_edges_in_a :: "edge fset"
  missing_edges_in_b :: "edge fset"

definition compare_topologies ::
  "node_name fset \<Rightarrow> edge fset \<Rightarrow> node_name fset \<Rightarrow> edge fset \<Rightarrow> topology_report" where
  "compare_topologies nodes_a edges_a nodes_b edges_b =
     (let missing_nodes_in_a' = nodes_b |-| nodes_a;
          missing_nodes_in_b' = nodes_a |-| nodes_b;
          missing_edges_in_a' = edges_b |-| edges_a;
          missing_edges_in_b' = edges_a |-| edges_b;
          is_valid' = (fcard missing_nodes_in_a' = 0 \<and> fcard missing_nodes_in_b' = 0 \<and>
                       fcard missing_edges_in_a' = 0 \<and> fcard missing_edges_in_b' = 0)
      in \<lparr>is_valid = is_valid',
          node_count_match = (fcard nodes_a = fcard nodes_b),
          edge_count_match = (fcard edges_a = fcard edges_b),
          missing_nodes_in_a = missing_nodes_in_a',
          missing_nodes_in_b = missing_nodes_in_b',
          missing_edges_in_a = missing_edges_in_a',
          missing_edges_in_b = missing_edges_in_b'\<rparr>)"

section \<open>Internal consistency of a serialized graph\<close>

text \<open>
  The part of the Causeway JSON that \<open>quick_validate\<close> reads: the ids of the entries under
  \<open>"nodes"\<close> and the source and target of the entries under \<open>"edges"\<close>. Either key may be
  missing (\<open>None\<close>), which \<open>causeway_json.get(key, [])\<close> reads as the empty list.
\<close>

record causeway_json =
  nodes :: "node_name list option"
  edges :: "edge list option"






section \<open>Notions of the specification\<close>





text \<open>
  The graph of an adjacency dictionary: an edge from every key to every member of its
  list. For an edge map the edges lead from a node to its parents, for a children map from
  a node to its children.
\<close>

definition edge_rel :: "adjacency \<Rightarrow> (node_name \<times> node_name) set" where
  "edge_rel m = {(x, y). y \<in> set (dict_get m x)}"

text \<open>
  The first-visit order of a pre-order depth-first search, written with an explicit stack
  of the nodes still to be looked at: the node on top is skipped when it was seen before;
  otherwise it is visited, and its own neighbours are pushed in front of the remaining
  siblings, so that a whole branch is finished before the next sibling is considered.
\<close>

function dfs_preorder :: "adjacency \<Rightarrow> node_name list \<Rightarrow> node_name set \<Rightarrow> node_name list" where
  "dfs_preorder m [] seen = []"
| "dfs_preorder m (x # stack) seen =
     (if x \<in> seen then dfs_preorder m stack seen
      else x # dfs_preorder m (dict_get m x @ stack) (insert x seen))"
  by pat_completeness auto

termination dfs_preorder
proof (relation "inv_image (less_than <*lex*> less_than)
         (\<lambda>(m, stack, seen). (card ((mentioned m \<union> set stack) - seen), length stack))")
  show "wf (inv_image (less_than <*lex*> less_than)
         (\<lambda>(m, stack, seen). (card ((mentioned m \<union> set stack) - seen), length stack)))"
    by (intro wf_inv_image wf_lex_prod wf_less_than)
next
  fix m :: adjacency and x :: node_name and stack :: "node_name list" and seen :: "node_name set"
  assume "x \<in> seen"
  then have "(mentioned m \<union> set stack) - seen \<subseteq> (mentioned m \<union> set (x # stack)) - seen"
    by auto
  then have "card ((mentioned m \<union> set stack) - seen)
          \<le> card ((mentioned m \<union> set (x # stack)) - seen)"
    by (intro card_mono) (simp_all add: finite_mentioned)
  then show "((m, stack, seen), m, x # stack, seen)
          \<in> inv_image (less_than <*lex*> less_than)
              (\<lambda>(m, stack, seen). (card ((mentioned m \<union> set stack) - seen), length stack))"
    by auto
next
  fix m :: adjacency and x :: node_name and stack :: "node_name list" and seen :: "node_name set"
  assume "x \<notin> seen"
  then have "(mentioned m \<union> set (dict_get m x @ stack)) - insert x seen
          \<subset> (mentioned m \<union> set (x # stack)) - seen"
    using dict_get_mentioned [of m x] by auto
  then have "card ((mentioned m \<union> set (dict_get m x @ stack)) - insert x seen)
          < card ((mentioned m \<union> set (x # stack)) - seen)"
    by (intro psubset_card_mono) (simp_all add: finite_mentioned)
  then show "((m, dict_get m x @ stack, insert x seen), m, x # stack, seen)
          \<in> inv_image (less_than <*lex*> less_than)
              (\<lambda>(m, stack, seen). (card ((mentioned m \<union> set stack) - seen), length stack))"
    by simp
qed

text \<open>
  Distances in a graph. The shortest-path distance from \<open>n\<close> to \<open>x\<close> is \<open>d\<close> when \<open>x\<close> is
  reached from \<open>n\<close> over \<open>d\<close> edges and over no fewer; the distance from a node to itself
  is 0. The shortest cycle through \<open>n\<close> has length \<open>d\<close> when \<open>n\<close> is reached from itself
  over \<open>d\<close> edges, at least one, and over no smaller positive number.
\<close>

definition shortest_distance ::
  "(node_name \<times> node_name) set \<Rightarrow> node_name \<Rightarrow> node_name \<Rightarrow> nat \<Rightarrow> bool" where
  "shortest_distance R n x d \<longleftrightarrow> (n, x) \<in> R ^^ d \<and> (\<forall>k < d. (n, x) \<notin> R ^^ k)"

definition shortest_cycle :: "(node_name \<times> node_name) set \<Rightarrow> node_name \<Rightarrow> nat \<Rightarrow> bool" where
  "shortest_cycle R n d \<longleftrightarrow>
     1 \<le> d \<and> (n, n) \<in> R ^^ d \<and> (\<forall>k. 1 \<le> k \<and> k < d \<longrightarrow> (n, n) \<notin> R ^^ k)"

text \<open>
  What the breadth-first loop records, for any node: \<open>x\<close> is reached from \<open>n\<close> over \<open>d\<close>
  edges, at least one, and over no smaller positive number of edges. For \<open>x\<close> other than
  \<open>n\<close> this is the shortest-path distance, for \<open>n\<close> itself the shortest cycle.
\<close>

definition least_positive_path :: "(node_name \<times> node_name) set \<Rightarrow> node_name \<Rightarrow> node_name \<Rightarrow> nat \<Rightarrow> bool" where
  "least_positive_path R n x d \<longleftrightarrow>
     1 \<le> d \<and> (n, x) \<in> R ^^ d \<and> (\<forall>k. 1 \<le> k \<and> k < d \<longrightarrow> (n, x) \<notin> R ^^ k)"

text \<open>
  An order of the nodes puts parents first when all parents of the node at a position occur
  at earlier positions. An edge map is closed when every parent it lists is itself a key.
\<close>

definition parents_first :: "adjacency \<Rightarrow> node_name list \<Rightarrow> bool" where
  "parents_first edge_map order \<longleftrightarrow>
     (\<forall>i < length order. set (dict_get edge_map (order ! i)) \<subseteq> set (take i order))"

definition closed_edge_map :: "adjacency \<Rightarrow> bool" where
  "closed_edge_map edge_map \<longleftrightarrow> (\<forall>e \<in> set edge_map. set (snd e) \<subseteq> set (dict_keys edge_map))"

text \<open>
  The edge map after the edge from \<open>source_name\<close> to \<open>target_name\<close> is added: the source
  is appended to the parent list of the target, in a new entry when the target has none.
\<close>

definition add_edge :: "node_name \<Rightarrow> node_name \<Rightarrow> adjacency \<Rightarrow> adjacency" where
  "add_edge source_name target_name edge_map = append_child target_name source_name edge_map"

section \<open>Examples\<close>

definition diamond :: adjacency where
  "diamond = [(''A'', []), (''B'', [''A'']), (''C'', [''A'']), (''D'', [''B'', ''C''])]"

definition external_parent :: adjacency where
  "external_parent = [(''child'', [''parent1'', ''parent2'']), (''grandchild'', [''child''])]"


definition self_parent :: adjacency where
  "self_parent = [(''A'', [''A''])]"

definition two_cycle :: adjacency where
  "two_cycle = [(''A'', [''B'']), (''B'', [''A'']), (''C'', []), (''D'', [])]"

text \<open>A rank for the nodes of \<open>external_parent\<close> that grows from every node to its parents.\<close>

definition generation :: "node_name \<Rightarrow> nat" where
  "generation x = (if x = ''grandchild'' then 0 else if x = ''child'' then 1 else 2)"

section \<open>The children map, characterised\<close>

lemma dict_get_append_child:
  "dict_get (append_child p c d) k = (if k = p then dict_get d p @ [c] else dict_get d k)"
  by (induction d) (auto simp: dict_get_def)

lemma dict_get_fold_append_child:
  "dict_get (fold (\<lambda>p ch. append_child p c ch) ps d) k
     = dict_get d k @ replicate (count_list ps k) c"
proof (induction ps arbitrary: d)
  case Nil
  show ?case by simp
next
  case (Cons p ps)
  show ?case
    by (simp add: Cons.IH dict_get_append_child replicate_app_Cons_same)
qed

definition children_of :: "adjacency \<Rightarrow> node_name \<Rightarrow> node_name list" where
  "children_of edge_map k =
     concat (map (\<lambda>(child_name, parent_names). replicate (count_list parent_names k) child_name)
                 edge_map)"

lemma dict_get_fold_children:
  "dict_get (fold (\<lambda>(child_name, parent_names) children.
                     fold (\<lambda>parent_name ch. append_child parent_name child_name ch)
                          parent_names children) es d) k
     = dict_get d k @ children_of es k"
proof (induction es arbitrary: d)
  case Nil
  show ?case by (simp add: children_of_def)
next
  case (Cons e es)
  obtain c ps where e: "e = (c, ps)" by (cases e)
  show ?case
    by (simp add: e Cons.IH dict_get_fold_append_child children_of_def)
qed

lemma dict_get_initial: "dict_get (map (\<lambda>(name, _). (name, [])) es) k = []"
  by (induction es) (auto simp: dict_get_def)

lemma dict_get_build_children_map:
  "dict_get (build_children_map edge_map) k = children_of edge_map k"
  by (simp add: build_children_map_def dict_get_fold_children dict_get_initial)

lemma set_children_of:
  "set (children_of edge_map k) = {c. \<exists>ps. (c, ps) \<in> set edge_map \<and> k \<in> set ps}"
  by (auto simp: children_of_def count_list_0_iff)

lemma dict_get_distinct:
  "distinct (map fst d) \<Longrightarrow> (k, v) \<in> set d \<Longrightarrow> dict_get d k = v"
  by (simp add: dict_get_def)

lemma dict_get_elem:
  assumes "x \<in> set (dict_get d k)"
  shows "\<exists>v. (k, v) \<in> set d \<and> x \<in> set v"
proof (cases "map_of d k")
  case None
  with assms show ?thesis by (simp add: dict_get_def)
next
  case (Some v)
  with assms have "(k, v) \<in> set d" "x \<in> set v"
    by (simp_all add: dict_get_def map_of_SomeD)
  then show ?thesis by blast
qed

lemma set_children_of_distinct:
  assumes "distinct (map fst edge_map)"
  shows "set (children_of edge_map k) = {c. k \<in> set (dict_get edge_map c)}"
proof -
  have "(\<exists>ps. (c, ps) \<in> set edge_map \<and> k \<in> set ps) \<longleftrightarrow> k \<in> set (dict_get edge_map c)" for c
    using dict_get_distinct [OF assms] dict_get_elem [of k edge_map c] by blast
  then show ?thesis by (simp add: set_children_of)
qed

lemma dict_get_unknown: "k \<notin> set (map fst d) \<Longrightarrow> dict_get d k = []"
  by (simp add: dict_get_def map_of_eq_None_iff [THEN iffD2])

section \<open>Depth-first traversal, characterised\<close>

lemma dfs_preorder_append:
  "dfs_preorder m (xs @ ys) seen
     = dfs_preorder m xs seen @ dfs_preorder m ys (seen \<union> set (dfs_preorder m xs seen))"
proof (induction m xs seen rule: dfs_preorder.induct)
  case (1 m seen)
  show ?case by simp
next
  case (2 m x stack seen)
  show ?case
  proof (cases "x \<in> seen")
    case True
    with 2 show ?thesis by simp
  next
    case False
    with 2 have "dfs_preorder m ((dict_get m x @ stack) @ ys) (insert x seen)
        = dfs_preorder m (dict_get m x @ stack) (insert x seen)
          @ dfs_preorder m ys (insert x seen \<union> set (dfs_preorder m (dict_get m x @ stack) (insert x seen)))"
      by simp
    with False show ?thesis by simp
  qed
qed

lemma traverse_dfs_preorder:
  "traverse m ps (visited, acc)
     = (visited \<union> set (dfs_preorder m ps visited), acc @ dfs_preorder m ps visited)"
proof (induction m ps "(visited, acc)" arbitrary: visited acc rule: traverse.induct)
  case (1 m)
  show ?case by simp
next
  case (2 m p ps visited acc)
  show ?case
  proof (cases "p \<in> visited")
    case True
    with 2(3) show ?thesis by simp
  next
    case False
    let ?A = "dfs_preorder m (dict_get m p) (insert p visited)"
    have inner: "traverse m (dict_get m p) (insert p visited, acc @ [p])
                   = (insert p visited \<union> set ?A, (acc @ [p]) @ ?A)"
      using 2(1) False by simp
    have outer: "traverse m ps (insert p visited \<union> set ?A, (acc @ [p]) @ ?A)
        = ((insert p visited \<union> set ?A) \<union> set (dfs_preorder m ps (insert p visited \<union> set ?A)),
           ((acc @ [p]) @ ?A) @ dfs_preorder m ps (insert p visited \<union> set ?A))"
      using 2(2) [OF False inner] by simp
    have "dfs_preorder m (p # ps) visited
            = p # ?A @ dfs_preorder m ps (insert p visited \<union> set ?A)"
      using False dfs_preorder_append [of m "dict_get m p" ps "insert p visited"] by simp
    with False inner outer show ?thesis by auto
  qed
qed

lemma dfs_preorder_fresh:
  "set (dfs_preorder m ps seen) \<inter> seen = {} \<and> distinct (dfs_preorder m ps seen)"
  by (induction m ps seen rule: dfs_preorder.induct) auto

lemma dfs_preorder_covers: "set ps \<subseteq> seen \<union> set (dfs_preorder m ps seen)"
  by (induction m ps seen rule: dfs_preorder.induct) auto

lemma dfs_preorder_closed:
  "x \<in> set (dfs_preorder m ps seen) \<Longrightarrow>
     set (dict_get m x) \<subseteq> seen \<union> set (dfs_preorder m ps seen)"
proof (induction m ps seen rule: dfs_preorder.induct)
  case (1 m seen)
  then show ?case by simp
next
  case (2 m y stack seen)
  show ?case
  proof (cases "y \<in> seen")
    case True
    with 2 show ?thesis by simp
  next
    case False
    let ?r = "dfs_preorder m (dict_get m y @ stack) (insert y seen)"
    from False have eq: "dfs_preorder m (y # stack) seen = y # ?r" by simp
    show ?thesis
    proof (cases "x = y")
      case True
      have "set (dict_get m y) \<subseteq> insert y seen \<union> set ?r"
        using dfs_preorder_covers [of "dict_get m y @ stack" "insert y seen" m] by simp
      with True eq show ?thesis by auto
    next
      case ne: False
      with 2(3) eq have "x \<in> set ?r" by simp
      from 2(2) [OF False this] eq show ?thesis by auto
    qed
  qed
qed

lemma dfs_preorder_sound:
  "y \<in> set (dfs_preorder m ps seen) \<Longrightarrow> \<exists>x \<in> set ps. (x, y) \<in> (edge_rel m)\<^sup>*"
proof (induction m ps seen rule: dfs_preorder.induct)
  case (1 m seen)
  then show ?case by simp
next
  case (2 m x stack seen)
  show ?case
  proof (cases "x \<in> seen")
    case True
    with 2 show ?thesis by auto
  next
    case False
    show ?thesis
    proof (cases "y = x")
      case True
      then show ?thesis by auto
    next
      case ne: False
      with 2(3) False have "y \<in> set (dfs_preorder m (dict_get m x @ stack) (insert x seen))"
        by simp
      from 2(2) [OF False this] obtain z
        where z: "z \<in> set (dict_get m x @ stack)" "(z, y) \<in> (edge_rel m)\<^sup>*" by blast
      show ?thesis
      proof (cases "z \<in> set stack")
        case True
        with z show ?thesis by auto
      next
        case False
        with z have "(x, z) \<in> edge_rel m" by (simp add: edge_rel_def)
        with z have "(x, y) \<in> (edge_rel m)\<^sup>*" by (meson converse_rtrancl_into_rtrancl)
        then show ?thesis by auto
      qed
    qed
  qed
qed

lemma set_dfs_preorder:
  "set (dfs_preorder m ps {}) = (edge_rel m)\<^sup>* `` set ps"
proof
  show "set (dfs_preorder m ps {}) \<subseteq> (edge_rel m)\<^sup>* `` set ps"
    using dfs_preorder_sound [of _ m ps "{}"] by blast
next
  let ?S = "set (dfs_preorder m ps {})"
  have closed: "y \<in> ?S" if "x \<in> ?S" "(x, y) \<in> edge_rel m" for x y
    using dfs_preorder_closed [OF that(1)] that(2) by (auto simp: edge_rel_def)
  have "y \<in> ?S" if "(x, y) \<in> (edge_rel m)\<^sup>*" "x \<in> ?S" for x y
    using that by (induction rule: rtrancl_induct) (auto intro: closed)
  moreover have "set ps \<subseteq> ?S" using dfs_preorder_covers [of ps "{}" m] by simp
  ultimately show "(edge_rel m)\<^sup>* `` set ps \<subseteq> ?S" by blast
qed

lemma rtrancl_successors:
  "(edge_rel m)\<^sup>* `` set (dict_get m n) = (edge_rel m)\<^sup>+ `` {n}"
proof -
  have "set (dict_get m n) = edge_rel m `` {n}" by (auto simp: edge_rel_def)
  then show ?thesis by (auto simp: trancl_unfold_left relcomp_unfold Image_def)
qed

lemma edge_rel_children_map:
  assumes "distinct (dict_keys edge_map)"
  shows "edge_rel (build_children_map edge_map) = (edge_rel edge_map)\<inverse>"
  using set_children_of_distinct [of edge_map] assms
  by (auto simp: edge_rel_def dict_get_build_children_map dict_keys_def)

lemma get_ancestors_dfs_preorder:
  "get_ancestors edge_map n = dfs_preorder edge_map (get_parents edge_map n) {}"
  by (simp add: get_ancestors_def get_parents_def traverse_dfs_preorder)

lemma get_descendants_dfs_preorder:
  "get_descendants edge_map n
     = dfs_preorder (build_children_map edge_map) (get_children edge_map n) {}"
  by (simp add: get_descendants_def get_children_def Let_def traverse_dfs_preorder)

lemma set_get_ancestors: "set (get_ancestors edge_map n) = (edge_rel edge_map)\<^sup>+ `` {n}"
  by (simp add: get_ancestors_dfs_preorder get_parents_def set_dfs_preorder rtrancl_successors)

lemma set_get_descendants:
  "set (get_descendants edge_map n) = (edge_rel (build_children_map edge_map))\<^sup>+ `` {n}"
  by (simp add: get_descendants_dfs_preorder get_children_def set_dfs_preorder rtrancl_successors)

section \<open>Breadth-first traversal, characterised\<close>

text \<open>
  What one run of the inner loop appends to \<open>visited\<close> and to the queue: the neighbours
  not known before, each once, at the next degree.
\<close>

fun fresh :: "nat \<Rightarrow> node_name list \<Rightarrow> node_name set \<Rightarrow> degrees" where
  "fresh d [] known = []"
| "fresh d (p # ps) known =
     (if p \<in> known then fresh d ps known else (p, d + 1) # fresh d ps (insert p known))"

lemma discover_fresh:
  "discover d ps (visited, queue)
     = (visited @ fresh d ps (fst ` set visited), queue @ fresh d ps (fst ` set visited))"
  by (induction ps arbitrary: visited queue) auto

lemma fresh_keys: "fst ` set (fresh d ps known) = set ps - known"
  by (induction ps arbitrary: known) auto

lemma fresh_distinct: "distinct (map fst (fresh d ps known))"
proof (induction ps arbitrary: known)
  case Nil
  show ?case by simp
next
  case (Cons p ps)
  have "p \<notin> fst ` set (fresh d ps (insert p known))" by (simp add: fresh_keys)
  with Cons show ?case by simp
qed

lemma fresh_degree: "e \<in> set (fresh d ps known) \<Longrightarrow> snd e = d + 1"
  by (induction ps arbitrary: known) (auto split: if_splits)

lemma fresh_sorted: "sorted (map snd (fresh d ps known))"
proof (induction ps arbitrary: known)
  case Nil
  show ?case by simp
next
  case (Cons p ps)
  have "\<forall>e \<in> set (fresh d ps (insert p known)). d + 1 \<le> snd e"
    using fresh_degree by fastforce
  with Cons show ?case by simp
qed

text \<open>
  The loop invariant. The start node followed by the visited list is the list of the
  finished nodes followed by the queue; degrees never decrease along it and differ by at
  most one between a visited node and a queued one; every recorded degree is the length of
  a path; every neighbour of a finished node is recorded, at most one degree further.
\<close>

definition bfs_inv ::
  "adjacency \<Rightarrow> node_name \<Rightarrow> degrees \<Rightarrow> degrees \<Rightarrow> degrees \<Rightarrow> bool" where
  "bfs_inv m n finished visited queue \<longleftrightarrow>
     (n, 0) # visited = finished @ queue
   \<and> sorted (map snd ((n, 0) # visited))
   \<and> (\<forall>e \<in> set visited. \<forall>q \<in> set queue. snd e \<le> snd q + 1)
   \<and> distinct (map fst visited)
   \<and> (\<forall>e \<in> set visited. 1 \<le> snd e)
   \<and> (\<forall>e \<in> set ((n, 0) # visited). (n, fst e) \<in> edge_rel m ^^ snd e)
   \<and> (\<forall>e \<in> set finished. \<forall>y \<in> set (dict_get m (fst e)).
          \<exists>d'. (y, d') \<in> set visited \<and> d' \<le> snd e + 1)"

lemma bfs_inv_initial: "bfs_inv m n [] [] [(n, 0)]"
  by (simp add: bfs_inv_def)

lemma bfs_inv_step:
  assumes inv: "bfs_inv m n finished visited ((c, d) # queue)"
  shows "bfs_inv m n (finished @ [(c, d)])
           (visited @ fresh d (dict_get m c) (fst ` set visited))
           (queue @ fresh d (dict_get m c) (fst ` set visited))"
proof -
  let ?new = "fresh d (dict_get m c) (fst ` set visited)"
  note i = inv [unfolded bfs_inv_def]
  note split = i [THEN conjunct1]
  note srt = i [THEN conjunct2, THEN conjunct1]
  note bound = i [THEN conjunct2, THEN conjunct2, THEN conjunct1]
  note dist = i [THEN conjunct2, THEN conjunct2, THEN conjunct2, THEN conjunct1]
  note pos = i [THEN conjunct2, THEN conjunct2, THEN conjunct2, THEN conjunct2, THEN conjunct1]
  note path = i [THEN conjunct2, THEN conjunct2, THEN conjunct2, THEN conjunct2, THEN conjunct2,
      THEN conjunct1]
  note fin = i [THEN conjunct2, THEN conjunct2, THEN conjunct2, THEN conjunct2, THEN conjunct2,
      THEN conjunct2]
  have newdeg: "\<forall>e \<in> set ?new. snd e = d + 1" by (simp add: fresh_degree)
  have vis_le: "\<forall>e \<in> set visited. snd e \<le> d + 1" using bound by auto
  have cd_in: "(c, d) \<in> set ((n, 0) # visited)" unfolding split by simp
  have q_ge: "\<forall>q \<in> set queue. d \<le> snd q"
  proof -
    from srt have "sorted (map snd (finished @ (c, d) # queue))" unfolding split .
    then have "sorted (map snd ((c, d) # queue))" by (simp add: sorted_append)
    then show ?thesis by auto
  qed
  have 1: "(n, 0) # (visited @ ?new) = (finished @ [(c, d)]) @ (queue @ ?new)"
    using split by simp
  have 2: "sorted (map snd ((n, 0) # (visited @ ?new)))"
  proof -
    have "sorted (map snd ?new)" by (rule fresh_sorted)
    moreover have "\<forall>x \<in> set (map snd ((n, 0) # visited)). \<forall>y \<in> set (map snd ?new). x \<le> y"
      using vis_le newdeg by auto
    ultimately have "sorted (map snd ((n, 0) # visited) @ map snd ?new)"
      using srt by (simp only: sorted_append)
    then show ?thesis by simp
  qed
  have 3: "\<forall>e \<in> set (visited @ ?new). \<forall>q \<in> set (queue @ ?new). snd e \<le> snd q + 1"
  proof (intro ballI)
    fix e q assume e: "e \<in> set (visited @ ?new)" and q: "q \<in> set (queue @ ?new)"
    from e vis_le newdeg have "snd e \<le> d + 1" by auto
    moreover from q q_ge newdeg have "d \<le> snd q" by auto
    ultimately show "snd e \<le> snd q + 1" by simp
  qed
  have 4: "distinct (map fst (visited @ ?new))"
    using dist fresh_distinct [of d "dict_get m c" "fst ` set visited"]
      fresh_keys [of d "dict_get m c" "fst ` set visited"] by auto
  have 5: "\<forall>e \<in> set (visited @ ?new). 1 \<le> snd e"
    using pos newdeg by auto
  have 6: "\<forall>e \<in> set ((n, 0) # (visited @ ?new)). (n, fst e) \<in> edge_rel m ^^ snd e"
  proof
    fix e assume e: "e \<in> set ((n, 0) # (visited @ ?new))"
    show "(n, fst e) \<in> edge_rel m ^^ snd e"
    proof (cases "e \<in> set ?new")
      case False
      with e path show ?thesis by auto
    next
      case True
      then have "fst e \<in> set (dict_get m c)" "snd e = Suc d"
        using fresh_keys [of d "dict_get m c" "fst ` set visited"] newdeg by auto
      moreover from path cd_in have "(n, c) \<in> edge_rel m ^^ d" by force
      ultimately show ?thesis by (auto simp: edge_rel_def)
    qed
  qed
  have 7: "\<forall>e \<in> set (finished @ [(c, d)]). \<forall>y \<in> set (dict_get m (fst e)).
             \<exists>d'. (y, d') \<in> set (visited @ ?new) \<and> d' \<le> snd e + 1"
  proof (intro ballI)
    fix e y assume e: "e \<in> set (finished @ [(c, d)])" and y: "y \<in> set (dict_get m (fst e))"
    show "\<exists>d'. (y, d') \<in> set (visited @ ?new) \<and> d' \<le> snd e + 1"
    proof (cases "e \<in> set finished")
      case True
      with fin y show ?thesis by fastforce
    next
      case False
      with e have e: "e = (c, d)" by simp
      show ?thesis
      proof (cases "y \<in> fst ` set visited")
        case True
        then obtain d' where "(y, d') \<in> set visited" by auto
        with vis_le e show ?thesis by fastforce
      next
        case False
        with y e have "y \<in> fst ` set ?new" by (simp add: fresh_keys)
        then obtain d' where "(y, d') \<in> set ?new" by auto
        with newdeg e show ?thesis by fastforce
      qed
    qed
  qed
  show ?thesis
    unfolding bfs_inv_def by (intro conjI 1 2 3 4 5 6 7)
qed

lemma bfs_loop_inv:
  "bfs_inv m n finished visited queue \<Longrightarrow>
     \<exists>finished'. bfs_inv m n finished' (bfs_loop m visited queue) []"
proof (induction m visited queue arbitrary: finished rule: bfs_loop.induct)
  case (1 m visited)
  then show ?case by auto
next
  case (2 m visited current d queue)
  let ?new = "fresh d (dict_get m current) (fst ` set visited)"
  have "bfs_inv m n (finished @ [(current, d)]) (visited @ ?new) (queue @ ?new)"
    using bfs_inv_step [OF "2.prems"] .
  from "2.IH" [OF discover_fresh [symmetric] this]
  show ?case by (simp add: discover_fresh)
qed


lemma bfs_inv_complete:
  assumes inv: "bfs_inv m n finished visited []"
  shows "(n, x) \<in> edge_rel m ^^ k \<Longrightarrow> 1 \<le> k \<Longrightarrow> \<exists>d \<le> k. (x, d) \<in> set visited"
proof (induction k arbitrary: x)
  case 0
  then show ?case by simp
next
  case (Suc k)
  note i = inv [unfolded bfs_inv_def]
  have all: "(n, 0) # visited = finished" using i [THEN conjunct1] by simp
  note fin = i [THEN conjunct2, THEN conjunct2, THEN conjunct2, THEN conjunct2, THEN conjunct2,
      THEN conjunct2]
  from Suc.prems(1) obtain c where c: "(n, c) \<in> edge_rel m ^^ k" "(c, x) \<in> edge_rel m"
    by auto
  then have x: "x \<in> set (dict_get m c)" by (simp add: edge_rel_def)
  have "\<exists>dc \<le> k. (c, dc) \<in> set finished"
  proof (cases k)
    case 0
    with c have "c = n" by simp
    with all 0 show ?thesis by auto
  next
    case (Suc k')
    with Suc.IH [OF c(1)] obtain dc where "dc \<le> k" "(c, dc) \<in> set visited" by auto
    with all show ?thesis by auto
  qed
  then obtain dc where dc: "dc \<le> k" "(c, dc) \<in> set finished" by blast
  with fin x obtain d' where "(x, d') \<in> set visited" "d' \<le> dc + 1" by fastforce
  with dc show ?case by (intro exI [of _ d']) simp
qed

lemma bfs_loop_result:
  fixes m n
  defines "visited \<equiv> bfs_loop m [] [(n, 0)]"
  shows "distinct (map fst visited)"
    and "sorted (map snd visited)"
    and "e \<in> set visited \<Longrightarrow> least_positive_path (edge_rel m) n (fst e) (snd e)"
    and "fst ` set visited = (edge_rel m)\<^sup>+ `` {n}"
proof -
  from bfs_loop_inv [OF bfs_inv_initial, of m n] obtain finished
    where inv: "bfs_inv m n finished visited []" unfolding visited_def by blast
  note i = inv [unfolded bfs_inv_def]
  note srt = i [THEN conjunct2, THEN conjunct1]
  note dist = i [THEN conjunct2, THEN conjunct2, THEN conjunct2, THEN conjunct1]
  note pos = i [THEN conjunct2, THEN conjunct2, THEN conjunct2, THEN conjunct2, THEN conjunct1]
  note path = i [THEN conjunct2, THEN conjunct2, THEN conjunct2, THEN conjunct2, THEN conjunct2,
      THEN conjunct1]
  show d: "distinct (map fst visited)" by (rule dist)
  show "sorted (map snd visited)" using srt by simp
  show "least_positive_path (edge_rel m) n (fst e) (snd e)" if e: "e \<in> set visited" for e
  proof -
    have "(n, fst e) \<notin> edge_rel m ^^ k" if k: "1 \<le> k" "k < snd e" for k
    proof
      assume "(n, fst e) \<in> edge_rel m ^^ k"
      from bfs_inv_complete [OF inv this k(1)] obtain d'
        where d': "d' \<le> k" "(fst e, d') \<in> set visited" by blast
      from d e d'(2) have "d' = snd e"
        by (metis eq_key_imp_eq_value prod.collapse)
      with d'(1) k(2) show False by simp
    qed
    with pos path e show ?thesis by (simp add: least_positive_path_def)
  qed
  show "fst ` set visited = (edge_rel m)\<^sup>+ `` {n}"
  proof (intro set_eqI iffI)
    fix x assume "x \<in> fst ` set visited"
    then obtain e where e: "e \<in> set visited" "x = fst e" by auto
    with pos path have "0 < snd e" "(n, x) \<in> edge_rel m ^^ snd e" by auto
    then have "(n, x) \<in> (edge_rel m)\<^sup>+"
      using trancl_power [of "(n, x)" "edge_rel m"] by blast
    then show "x \<in> (edge_rel m)\<^sup>+ `` {n}" by simp
  next
    fix x assume "x \<in> (edge_rel m)\<^sup>+ `` {n}"
    then have "(n, x) \<in> (edge_rel m)\<^sup>+" by simp
    then obtain k where "0 < k" "(n, x) \<in> edge_rel m ^^ k"
      using trancl_power [of "(n, x)" "edge_rel m"] by blast
    with bfs_inv_complete [OF inv, of x k] obtain d where "(x, d) \<in> set visited" by auto
    then show "x \<in> fst ` set visited" by force
  qed
qed

lemma with_degree_result_discovery:
  assumes "sorted (map snd visited)"
  shows "with_degree_result objs visited
           = map (\<lambda>(nm, d). \<lparr>node = objs nm, name = nm, degree = d\<rparr>) visited"
proof -
  have "map degree (map (\<lambda>(nm, d). \<lparr>node = objs nm, name = nm, degree = d\<rparr>) visited)
          = map snd visited"
    by (induction visited) auto
  with assms
  have "sorted (map degree (map (\<lambda>(nm, d). \<lparr>node = objs nm, name = nm, degree = d\<rparr>) visited))"
    by (simp only:)
  then show ?thesis
    unfolding with_degree_result_def by (rule sort_key_id_if_sorted)
qed

lemma with_degree_result_props:
  fixes m n objs
  defines "r \<equiv> with_degree_result objs (bfs_loop m [] [(n, 0)])"
  shows "map (\<lambda>e. (name e, degree e)) r = bfs_loop m [] [(n, 0)]"
    and "distinct (map name r)"
    and "sorted (map degree r)"
    and "name ` set r = (edge_rel m)\<^sup>+ `` {n}"
    and "\<forall>e \<in> set r. least_positive_path (edge_rel m) n (name e) (degree e) \<and> node e = objs (name e)"
proof -
  let ?V = "bfs_loop m [] [(n, 0)]"
  let ?mk = "\<lambda>(nm, d). \<lparr>node = objs nm, name = nm, degree = d\<rparr>"
  have r: "r = map ?mk ?V"
    unfolding r_def by (rule with_degree_result_discovery) (rule bfs_loop_result)
  have nm: "map name (map ?mk xs) = map fst xs" for xs :: degrees
    by (induction xs) auto
  have dg: "map degree (map ?mk xs) = map snd xs" for xs :: degrees
    by (induction xs) auto
  have pr: "map (\<lambda>e. (name e, degree e)) (map ?mk xs) = xs" for xs :: degrees
    by (induction xs) auto
  show "map (\<lambda>e. (name e, degree e)) r = ?V" unfolding r by (rule pr)
  show "distinct (map name r)" unfolding r nm by (rule bfs_loop_result)
  show "sorted (map degree r)" unfolding r dg by (rule bfs_loop_result)
  have "name ` set r = set (map name r)" by (simp only: set_map)
  also have "\<dots> = fst ` set ?V" unfolding r nm by (simp only: set_map)
  also have "\<dots> = (edge_rel m)\<^sup>+ `` {n}" by (rule bfs_loop_result)
  finally show "name ` set r = (edge_rel m)\<^sup>+ `` {n}" .
  show "\<forall>e \<in> set r. least_positive_path (edge_rel m) n (name e) (degree e) \<and> node e = objs (name e)"
  proof
    fix e assume "e \<in> set r"
    then obtain v where v: "v \<in> set ?V" "e = ?mk v" unfolding r by auto
    from bfs_loop_result(3) [OF v(1)] v(2)
    show "least_positive_path (edge_rel m) n (name e) (degree e) \<and> node e = objs (name e)"
      by (cases v) simp
  qed
qed

section \<open>The reachability search, characterised\<close>

lemma can_reach_sound:
  "fst (can_reach cm current goal visited) \<Longrightarrow> (current, goal) \<in> (edge_rel cm)\<^sup>*"
  "fst (can_reach_children cm cs goal visited) \<Longrightarrow> \<exists>c \<in> set cs. (c, goal) \<in> (edge_rel cm)\<^sup>*"
proof (induction cm current goal visited and cm cs goal visited
    rule: can_reach_can_reach_children.induct)
  case (1 cm current goal visited)
  show ?case
  proof (cases "current = goal")
    case True
    then show ?thesis by simp
  next
    case False
    with "1.prems" have nv: "current \<notin> visited"
      and f: "fst (can_reach_children cm (dict_get cm current) goal (insert current visited))"
      by (auto split: if_splits)
    from "1.IH" [OF False nv f] obtain c
      where "c \<in> set (dict_get cm current)" "(c, goal) \<in> (edge_rel cm)\<^sup>*" by blast
    then show ?thesis
      by (auto simp: edge_rel_def intro: converse_rtrancl_into_rtrancl)
  qed
next
  case (2 cm goal visited)
  then show ?case by simp
next
  case (3 cm child rest goal visited)
  obtain found v where r: "can_reach cm child goal visited = (found, v)"
    by (cases "can_reach cm child goal visited")
  show ?case
  proof (cases found)
    case True
    with r "3.IH"(1) have "(child, goal) \<in> (edge_rel cm)\<^sup>*" by simp
    then show ?thesis by auto
  next
    case False
    with r "3.prems" have "fst (can_reach_children cm rest goal v)" by simp
    from "3.IH"(2) [OF r [symmetric] False this] show ?thesis by auto
  qed
qed

lemma can_reach_closed:
  "\<not> fst (can_reach cm current goal visited) \<Longrightarrow>
     visited \<subseteq> snd (can_reach cm current goal visited)
     \<and> current \<in> snd (can_reach cm current goal visited)
     \<and> goal \<notin> snd (can_reach cm current goal visited) - visited
     \<and> (\<forall>x \<in> snd (can_reach cm current goal visited) - visited.
           set (dict_get cm x) \<subseteq> snd (can_reach cm current goal visited))"
  "\<not> fst (can_reach_children cm cs goal visited) \<Longrightarrow>
     visited \<subseteq> snd (can_reach_children cm cs goal visited)
     \<and> set cs \<subseteq> snd (can_reach_children cm cs goal visited)
     \<and> goal \<notin> snd (can_reach_children cm cs goal visited) - visited
     \<and> (\<forall>x \<in> snd (can_reach_children cm cs goal visited) - visited.
           set (dict_get cm x) \<subseteq> snd (can_reach_children cm cs goal visited))"
proof (induction cm current goal visited and cm cs goal visited
    rule: can_reach_can_reach_children.induct)
  case (1 cm current goal visited)
  from "1.prems" have ne: "current \<noteq> goal" by (auto split: if_splits)
  show ?case
  proof (cases "current \<in> visited")
    case True
    with ne show ?thesis by simp
  next
    case False
    let ?v = "snd (can_reach_children cm (dict_get cm current) goal (insert current visited))"
    from ne False have eq: "can_reach cm current goal visited
        = can_reach_children cm (dict_get cm current) goal (insert current visited)" by simp
    with "1.prems"
    have "\<not> fst (can_reach_children cm (dict_get cm current) goal (insert current visited))"
      by simp
    from "1.IH" [OF ne False this]
    have a: "insert current visited \<subseteq> ?v" and b: "set (dict_get cm current) \<subseteq> ?v"
      and c: "goal \<notin> ?v - insert current visited"
      and d: "\<forall>x \<in> ?v - insert current visited. set (dict_get cm x) \<subseteq> ?v"
      by blast+
    have "\<forall>x \<in> ?v - visited. set (dict_get cm x) \<subseteq> ?v"
    proof
      fix x assume "x \<in> ?v - visited"
      then show "set (dict_get cm x) \<subseteq> ?v" using b d by (cases "x = current") auto
    qed
    with a c ne show ?thesis unfolding eq by auto
  qed
next
  case (2 cm goal visited)
  show ?case by simp
next
  case (3 cm child rest goal visited)
  obtain found v where r: "can_reach cm child goal visited = (found, v)"
    by (cases "can_reach cm child goal visited")
  with "3.prems" have nf: "\<not> found" by (auto split: if_splits)
  let ?w = "snd (can_reach_children cm rest goal v)"
  from r nf have eq: "can_reach_children cm (child # rest) goal visited
      = can_reach_children cm rest goal v" by simp
  from "3.IH"(1) r nf
  have a1: "visited \<subseteq> v" and b1: "child \<in> v" and c1: "goal \<notin> v - visited"
    and d1: "\<forall>x \<in> v - visited. set (dict_get cm x) \<subseteq> v"
    by simp_all
  from "3.prems" eq have "\<not> fst (can_reach_children cm rest goal v)" by simp
  from "3.IH"(2) [OF r [symmetric] nf this]
  have a2: "v \<subseteq> ?w" and b2: "set rest \<subseteq> ?w" and c2: "goal \<notin> ?w - v"
    and d2: "\<forall>x \<in> ?w - v. set (dict_get cm x) \<subseteq> ?w"
    by blast+
  have "\<forall>x \<in> ?w - visited. set (dict_get cm x) \<subseteq> ?w"
  proof
    fix x assume x: "x \<in> ?w - visited"
    show "set (dict_get cm x) \<subseteq> ?w"
    proof (cases "x \<in> v")
      case True
      with x d1 a2 show ?thesis by blast
    next
      case False
      with x d2 show ?thesis by blast
    qed
  qed
  moreover have "visited \<subseteq> ?w" using a1 a2 by blast
  moreover have "set (child # rest) \<subseteq> ?w" using b1 a2 b2 by auto
  moreover have "goal \<notin> ?w - visited" using c1 c2 by blast
  ultimately show ?case unfolding eq by blast
qed

lemma can_reach_iff:
  "fst (can_reach cm current goal {}) \<longleftrightarrow> (current, goal) \<in> (edge_rel cm)\<^sup>*"
proof
  assume "fst (can_reach cm current goal {})"
  then show "(current, goal) \<in> (edge_rel cm)\<^sup>*" by (rule can_reach_sound)
next
  assume reach: "(current, goal) \<in> (edge_rel cm)\<^sup>*"
  show "fst (can_reach cm current goal {})"
  proof (rule ccontr)
    assume nf: "\<not> fst (can_reach cm current goal {})"
    let ?v = "snd (can_reach cm current goal {})"
    from can_reach_closed(1) [OF nf]
    have cur: "current \<in> ?v" and goal: "goal \<notin> ?v"
      and closed: "\<forall>x \<in> ?v. set (dict_get cm x) \<subseteq> ?v" by auto
    have "y \<in> ?v" if "(x, y) \<in> (edge_rel cm)\<^sup>*" "x \<in> ?v" for x y
      using that
    proof (induction rule: rtrancl_induct)
      case base
      then show ?case .
    next
      case (step y z)
      then have "y \<in> ?v" "z \<in> set (dict_get cm y)" by (simp_all add: edge_rel_def)
      with closed show ?case by blast
    qed
    from this [OF reach cur] goal show False by contradiction
  qed
qed

lemma would_create_cycle_iff:
  assumes "distinct (dict_keys edge_map)"
  shows "would_create_cycle edge_map source_name target_name
           \<longleftrightarrow> (source_name, target_name) \<in> (edge_rel edge_map)\<^sup>*"
proof -
  have "would_create_cycle edge_map source_name target_name
          \<longleftrightarrow> (target_name, source_name) \<in> ((edge_rel edge_map)\<inverse>)\<^sup>*"
    unfolding would_create_cycle_def
    by (auto simp only: can_reach_iff edge_rel_children_map [OF assms] rtrancl.rtrancl_refl
        split: if_splits)
  then show ?thesis by (simp add: rtrancl_converse)
qed

section \<open>Kahn's algorithm, characterised\<close>

lemma map_of_dict_set: "map_of (dict_set k v d) = (map_of d)(k \<mapsto> v)"
  by (induction d) (auto simp: fun_eq_iff)

lemma keys_dict_set: "k \<in> fst ` set d \<Longrightarrow> map fst (dict_set k v d) = map fst d"
  by (induction d) force+

lemma release_children_result:
  assumes "set cs \<subseteq> fst ` set in_degree"
  shows "\<exists>in_degree' zs.
           release_children cs (in_degree, queue) = Inr (in_degree', queue @ zs)
         \<and> map fst in_degree' = map fst in_degree
         \<and> (\<forall>k. map_of in_degree' k
                = map_option (\<lambda>d. d - int (count_list cs k)) (map_of in_degree k))
         \<and> distinct zs
         \<and> set zs = {x \<in> set cs. \<exists>d. map_of in_degree x = Some d \<and> 0 < d
                                    \<and> d \<le> int (count_list cs x)}"
  using assms
proof (induction cs arbitrary: in_degree queue)
  case Nil
  show ?case by (simp add: option.map_ident)
next
  case (Cons c cs)
  from Cons.prems have "c \<in> fst ` set in_degree" by simp
  then obtain d where d: "map_of in_degree c = Some d"
    by (metis map_of_eq_None_iff not_Some_eq)
  let ?deg = "dict_set c (d - 1) in_degree"
  let ?pre = "if d - 1 = 0 then [c] else []"
  have keys: "map fst ?deg = map fst in_degree"
    using \<open>c \<in> fst ` set in_degree\<close> by (rule keys_dict_set)
  then have "fst ` set ?deg = fst ` set in_degree" by (metis set_map)
  with Cons.prems have sub: "set cs \<subseteq> fst ` set ?deg" by simp
  from Cons.IH [OF sub, of "queue @ ?pre"] obtain in_degree' zs
    where run: "release_children cs (?deg, queue @ ?pre) = Inr (in_degree', (queue @ ?pre) @ zs)"
      and k': "map fst in_degree' = map fst ?deg"
      and m': "\<forall>k. map_of in_degree' k = map_option (\<lambda>d. d - int (count_list cs k)) (map_of ?deg k)"
      and dz: "distinct zs"
      and sz: "set zs = {x \<in> set cs. \<exists>d. map_of ?deg x = Some d \<and> 0 < d
                                    \<and> d \<le> int (count_list cs x)}"
    by blast
  have 1: "release_children (c # cs) (in_degree, queue) = Inr (in_degree', queue @ (?pre @ zs))"
    using d run by (auto split: if_splits)
  have 2: "map fst in_degree' = map fst in_degree" using k' keys by simp
  have 3: "\<forall>k. map_of in_degree' k
             = map_option (\<lambda>d. d - int (count_list (c # cs) k)) (map_of in_degree k)"
  proof
    fix k
    show "map_of in_degree' k
            = map_option (\<lambda>d. d - int (count_list (c # cs) k)) (map_of in_degree k)"
    proof (cases "k = c")
      case True
      with m' d show ?thesis by (simp add: map_of_dict_set)
    next
      case False
      with m' show ?thesis by (simp add: map_of_dict_set)
    qed
  qed
  have cz: "c \<in> set zs \<longleftrightarrow> 1 < d \<and> d - 1 \<le> int (count_list cs c)"
  proof -
    have "c \<in> set zs \<longleftrightarrow> c \<in> set cs \<and> 1 < d \<and> d - 1 \<le> int (count_list cs c)"
      unfolding sz by (auto simp: map_of_dict_set)
    moreover have "c \<in> set cs" if "1 < d" "d - 1 \<le> int (count_list cs c)"
    proof (rule ccontr)
      assume "c \<notin> set cs"
      then have "count_list cs c = 0" by (simp add: count_list_0_iff)
      with that show False by simp
    qed
    ultimately show ?thesis by blast
  qed
  have oz: "x \<in> set zs \<longleftrightarrow>
              x \<in> set cs \<and> (\<exists>d. map_of in_degree x = Some d \<and> 0 < d \<and> d \<le> int (count_list cs x))"
    if "x \<noteq> c" for x
    unfolding sz using that by (simp add: map_of_dict_set)
  have 4: "distinct (?pre @ zs)"
    using dz cz by auto
  have 5: "set (?pre @ zs) = {x \<in> set (c # cs). \<exists>d. map_of in_degree x = Some d \<and> 0 < d
                                    \<and> d \<le> int (count_list (c # cs) x)}"
  proof (intro set_eqI iffI)
    fix x assume x: "x \<in> set (?pre @ zs)"
    show "x \<in> {x \<in> set (c # cs). \<exists>d. map_of in_degree x = Some d \<and> 0 < d
                                    \<and> d \<le> int (count_list (c # cs) x)}"
    proof (cases "x = c")
      case True
      from x True cz have "d = 1 \<or> (1 < d \<and> d - 1 \<le> int (count_list cs c))"
        by (auto split: if_splits)
      with True d show ?thesis by auto
    next
      case False
      with x have "x \<in> set zs" by (auto split: if_splits)
      with oz [OF False] False show ?thesis by auto
    qed
  next
    fix x assume x: "x \<in> {x \<in> set (c # cs). \<exists>d. map_of in_degree x = Some d \<and> 0 < d
                                    \<and> d \<le> int (count_list (c # cs) x)}"
    show "x \<in> set (?pre @ zs)"
    proof (cases "x = c")
      case True
      with x d have "0 < d" "d \<le> int (count_list cs c) + 1" by auto
      then have "d = 1 \<or> (1 < d \<and> d - 1 \<le> int (count_list cs c))" by linarith
      with cz True show ?thesis by auto
    next
      case False
      with x oz [OF False] show ?thesis by auto
    qed
  qed
  from 1 2 3 4 5 show ?case by blast
qed


lemma count_list_replicate: "count_list (replicate k y) x = (if x = y then k else 0)"
  by (induction k) auto

lemma count_list_children_of:
  "distinct (map fst edge_map) \<Longrightarrow>
     count_list (children_of edge_map n) c = count_list (dict_get edge_map c) n"
proof (induction edge_map)
  case Nil
  show ?case by (simp add: children_of_def dict_get_def)
next
  case (Cons e edge_map)
  obtain c' ps where e: "e = (c', ps)" by (cases e)
  from Cons.prems e have fresh: "c' \<notin> fst ` set edge_map" and dist: "distinct (map fst edge_map)"
    by simp_all
  have split: "children_of (e # edge_map) n = replicate (count_list ps n) c' @ children_of edge_map n"
    by (simp add: children_of_def e)
  show ?case
  proof (cases "c = c'")
    case True
    with fresh have "dict_get edge_map c = []" by (simp add: dict_get_unknown)
    with Cons.IH [OF dist] have "count_list (children_of edge_map n) c = 0" by simp
    moreover have "dict_get (e # edge_map) c = ps" using True e by (simp add: dict_get_def)
    ultimately show ?thesis using True by (simp add: split count_list_replicate)
  next
    case False
    then have "dict_get (e # edge_map) c = dict_get edge_map c" using e by (simp add: dict_get_def)
    with Cons.IH [OF dist] False show ?thesis by (simp add: split count_list_replicate)
  qed
qed

text \<open>
  The number of entries in the parent list of \<open>k\<close> that are not yet in the result: what the
  in-degree counter of \<open>k\<close> holds during the loop.
\<close>

definition outstanding :: "adjacency \<Rightarrow> node_name list \<Rightarrow> node_name \<Rightarrow> int" where
  "outstanding edge_map result k
     = int (length (filter (\<lambda>p. p \<notin> set result) (dict_get edge_map k)))"

lemma filter_count_split:
  "n \<notin> S \<Longrightarrow>
     length (filter (\<lambda>p. p \<notin> insert n S) ps) + count_list ps n = length (filter (\<lambda>p. p \<notin> S) ps)"
  by (induction ps) auto

lemma outstanding_append:
  "n \<notin> set result \<Longrightarrow>
     outstanding edge_map (result @ [n]) k
       = outstanding edge_map result k - int (count_list (dict_get edge_map k) n)"
  using filter_count_split [of n "set result" "dict_get edge_map k"]
  by (simp add: outstanding_def)

lemma outstanding_zero:
  "outstanding edge_map result k = 0 \<longleftrightarrow> set (dict_get edge_map k) \<subseteq> set result"
  by (auto simp: outstanding_def filter_empty_conv)

lemma outstanding_nonneg: "0 \<le> outstanding edge_map result k"
  by (simp add: outstanding_def)

text \<open>
  The loop invariant: the counters are the outstanding parents; result and queue together
  hold, once each, exactly the keys whose parents are all in the result; and the result
  puts parents first.
\<close>

definition kahn_inv ::
  "adjacency \<Rightarrow> in_degrees \<Rightarrow> node_name list \<Rightarrow> node_name list \<Rightarrow> bool" where
  "kahn_inv edge_map in_degree queue result \<longleftrightarrow>
     map fst in_degree = map fst edge_map
   \<and> distinct (result @ queue)
   \<and> set (result @ queue) \<subseteq> set (map fst edge_map)
   \<and> (\<forall>k \<in> set (map fst edge_map). map_of in_degree k = Some (outstanding edge_map result k))
   \<and> (\<forall>k \<in> set (map fst edge_map).
         k \<in> set (result @ queue) \<longleftrightarrow> set (dict_get edge_map k) \<subseteq> set result)
   \<and> (\<forall>i < length result. set (dict_get edge_map (result ! i)) \<subseteq> set (take i result))"

lemma set_children_of_keys:
  assumes "distinct (map fst edge_map)"
  shows "set (children_of edge_map n)
           = {c \<in> set (map fst edge_map). n \<in> set (dict_get edge_map c)}"
proof -
  have "c \<in> set (map fst edge_map)" if "n \<in> set (dict_get edge_map c)" for c
    using that dict_get_unknown [of c edge_map] by fastforce
  then show ?thesis using set_children_of_distinct [OF assms, of n] by auto
qed

lemma kahn_inv_step:
  assumes dist: "distinct (map fst edge_map)"
    and inv: "kahn_inv edge_map in_degree (n # queue) result"
  shows "\<exists>in_degree' queue'.
           release_children (dict_get (build_children_map edge_map) n) (in_degree, queue)
             = Inr (in_degree', queue')
         \<and> kahn_inv edge_map in_degree' queue' (result @ [n])"
proof -
  let ?K = "set (map fst edge_map)"
  let ?cs = "children_of edge_map n"
  note i = inv [unfolded kahn_inv_def]
  note keys = i [THEN conjunct1]
  note dis = i [THEN conjunct2, THEN conjunct1]
  note sub = i [THEN conjunct2, THEN conjunct2, THEN conjunct1]
  note deg = i [THEN conjunct2, THEN conjunct2, THEN conjunct2, THEN conjunct1]
  note rdy = i [THEN conjunct2, THEN conjunct2, THEN conjunct2, THEN conjunct2, THEN conjunct1]
  note top = i [THEN conjunct2, THEN conjunct2, THEN conjunct2, THEN conjunct2, THEN conjunct2]
  have cs: "set ?cs = {c \<in> ?K. n \<in> set (dict_get edge_map c)}"
    by (rule set_children_of_keys [OF dist])
  have nres: "n \<notin> set result" and nK: "n \<in> ?K" using dis sub by auto
  have "set ?cs \<subseteq> fst ` set in_degree"
    using cs keys by (metis (no_types, lifting) mem_Collect_eq set_map subsetI)
  from release_children_result [OF this, of queue] obtain in_degree' zs
    where run: "release_children ?cs (in_degree, queue) = Inr (in_degree', queue @ zs)"
      and k': "map fst in_degree' = map fst in_degree"
      and m': "\<forall>k. map_of in_degree' k
                 = map_option (\<lambda>d. d - int (count_list ?cs k)) (map_of in_degree k)"
      and dz: "distinct zs"
      and sz: "set zs = {x \<in> set ?cs. \<exists>d. map_of in_degree x = Some d \<and> 0 < d
                                    \<and> d \<le> int (count_list ?cs x)}"
    by blast
  have deg': "\<forall>k \<in> ?K. map_of in_degree' k = Some (outstanding edge_map (result @ [n]) k)"
  proof
    fix k assume "k \<in> ?K"
    with deg have "map_of in_degree k = Some (outstanding edge_map result k)" by blast
    with m' show "map_of in_degree' k = Some (outstanding edge_map (result @ [n]) k)"
      by (simp add: outstanding_append [OF nres] count_list_children_of [OF dist])
  qed
  have zs_iff: "x \<in> set zs \<longleftrightarrow>
                  x \<in> ?K \<and> n \<in> set (dict_get edge_map x)
                  \<and> set (dict_get edge_map x) \<subseteq> set (result @ [n])" for x
  proof (cases "x \<in> ?K \<and> n \<in> set (dict_get edge_map x)")
    case False
    with cs sz show ?thesis by blast
  next
    case True
    then have xcs: "x \<in> set ?cs" using cs by blast
    from True deg have d: "map_of in_degree x = Some (outstanding edge_map result x)" by blast
    have cnt: "0 < count_list (dict_get edge_map x) n"
      using True count_list_0_iff [of "dict_get edge_map x" n] by (cases "count_list (dict_get edge_map x) n") auto
    have new: "outstanding edge_map (result @ [n]) x
                 = outstanding edge_map result x - int (count_list (dict_get edge_map x) n)"
      by (rule outstanding_append [OF nres])
    have "x \<in> set zs \<longleftrightarrow> 0 < outstanding edge_map result x
            \<and> outstanding edge_map result x \<le> int (count_list (dict_get edge_map x) n)"
      unfolding sz using xcs d by (simp add: count_list_children_of [OF dist])
    also have "\<dots> \<longleftrightarrow> outstanding edge_map (result @ [n]) x = 0"
      using new cnt outstanding_nonneg [of edge_map "result @ [n]" x] by linarith
    also have "\<dots> \<longleftrightarrow> set (dict_get edge_map x) \<subseteq> set (result @ [n])"
      by (rule outstanding_zero)
    finally show ?thesis using True by blast
  qed
  have zs_new: "set zs \<inter> set (result @ n # queue) = {}"
  proof (rule ccontr)
    assume "set zs \<inter> set (result @ n # queue) \<noteq> {}"
    then obtain x where x: "x \<in> set zs" "x \<in> set (result @ n # queue)" by blast
    from x(1) zs_iff have xK: "x \<in> ?K" and par: "n \<in> set (dict_get edge_map x)" by blast+
    from rdy xK x(2) have "set (dict_get edge_map x) \<subseteq> set result" by blast
    with par nres show False by blast
  qed
  have 1: "map fst in_degree' = map fst edge_map" using k' keys by simp
  have 2: "distinct ((result @ [n]) @ (queue @ zs))"
    using dis dz zs_new by auto
  have 3: "set ((result @ [n]) @ (queue @ zs)) \<subseteq> ?K"
    using sub zs_iff by auto
  have 5: "\<forall>k \<in> ?K. k \<in> set ((result @ [n]) @ (queue @ zs))
             \<longleftrightarrow> set (dict_get edge_map k) \<subseteq> set (result @ [n])"
  proof
    fix k assume kK: "k \<in> ?K"
    show "k \<in> set ((result @ [n]) @ (queue @ zs))
             \<longleftrightarrow> set (dict_get edge_map k) \<subseteq> set (result @ [n])"
    proof
      assume "k \<in> set ((result @ [n]) @ (queue @ zs))"
      then consider "k \<in> set (result @ n # queue)" | "k \<in> set zs" by auto
      then show "set (dict_get edge_map k) \<subseteq> set (result @ [n])"
      proof cases
        case 1
        with rdy kK have "set (dict_get edge_map k) \<subseteq> set result" by blast
        then show ?thesis by auto
      next
        case 2
        with zs_iff show ?thesis by blast
      qed
    next
      assume a: "set (dict_get edge_map k) \<subseteq> set (result @ [n])"
      show "k \<in> set ((result @ [n]) @ (queue @ zs))"
      proof (cases "n \<in> set (dict_get edge_map k)")
        case True
        with a kK zs_iff have "k \<in> set zs" by blast
        then show ?thesis by simp
      next
        case False
        with a have "set (dict_get edge_map k) \<subseteq> set result" by auto
        with rdy kK have "k \<in> set (result @ n # queue)" by blast
        then show ?thesis by auto
      qed
    qed
  qed
  have 6: "\<forall>i < length (result @ [n]).
             set (dict_get edge_map ((result @ [n]) ! i)) \<subseteq> set (take i (result @ [n]))"
  proof (intro allI impI)
    fix i assume "i < length (result @ [n])"
    then consider "i < length result" | "i = length result" by fastforce
    then show "set (dict_get edge_map ((result @ [n]) ! i)) \<subseteq> set (take i (result @ [n]))"
    proof cases
      case 1
      with top show ?thesis by (simp add: nth_append)
    next
      case 2
      from rdy nK have "set (dict_get edge_map n) \<subseteq> set result" by auto
      with 2 show ?thesis by simp
    qed
  qed
  have "kahn_inv edge_map in_degree' (queue @ zs) (result @ [n])"
    unfolding kahn_inv_def by (intro conjI 1 2 3 deg' 5 6)
  with run show ?thesis by (simp only: dict_get_build_children_map) blast
qed


lemma kahn_loop_inv:
  assumes dist: "distinct (map fst edge_map)"
  shows "cm = build_children_map edge_map \<Longrightarrow> kahn_inv edge_map in_degree queue result \<Longrightarrow>
     \<exists>result' in_degree'. kahn_loop cm in_degree queue result = Inr result'
        \<and> kahn_inv edge_map in_degree' [] result'"
proof (induction cm in_degree queue result rule: kahn_loop.induct)
  case (1 cm in_degree result)
  then show ?case by auto
next
  case (2 cm in_degree n queue result)
  from kahn_inv_step [OF dist "2.prems"(2)] "2.prems"(1) obtain in_degree' queue'
    where run: "release_children (dict_get cm n) (in_degree, queue) = Inr (in_degree', queue')"
      and inv: "kahn_inv edge_map in_degree' queue' (result @ [n])" by blast
  from "2.IH" [OF run refl "2.prems"(1) inv] run show ?case by simp
qed

definition initial_in_degree :: "adjacency \<Rightarrow> in_degrees" where
  "initial_in_degree edge_map = map (\<lambda>(name, parents). (name, int (length parents))) edge_map"

lemma initial_queue:
  "map fst (filter (\<lambda>(name, d). d = 0) (initial_in_degree edge_map)) = get_roots edge_map"
  unfolding initial_in_degree_def get_roots_def
  by (induction edge_map) auto

lemma dict_get_key:
  "distinct (map fst d) \<Longrightarrow> k \<in> set (map fst d) \<Longrightarrow> map_of d k = Some (dict_get d k)"
  by (auto simp: dict_get_def split: option.splits simp: map_of_eq_None_iff)

lemma kahn_inv_initial:
  assumes dist: "distinct (map fst edge_map)"
  shows "kahn_inv edge_map (initial_in_degree edge_map) (get_roots edge_map) []"
proof -
  let ?K = "set (map fst edge_map)"
  have 1: "map fst (initial_in_degree edge_map) = map fst edge_map"
    unfolding initial_in_degree_def by (induction edge_map) auto
  have 2: "distinct ([] @ get_roots edge_map)"
    using dist by (simp add: get_roots_def distinct_map_filter)
  have 3: "set ([] @ get_roots edge_map) \<subseteq> ?K"
    by (auto simp: get_roots_def)
  have 4: "\<forall>k \<in> ?K. map_of (initial_in_degree edge_map) k = Some (outstanding edge_map [] k)"
  proof
    fix k assume "k \<in> ?K"
    from dict_get_key [OF dist this]
    show "map_of (initial_in_degree edge_map) k = Some (outstanding edge_map [] k)"
      by (simp add: initial_in_degree_def map_of_map outstanding_def)
  qed
  have 5: "\<forall>k \<in> ?K. k \<in> set ([] @ get_roots edge_map)
             \<longleftrightarrow> set (dict_get edge_map k) \<subseteq> set []"
  proof
    fix k assume "k \<in> ?K"
    have "k \<in> set (get_roots edge_map) \<longleftrightarrow> (k, []) \<in> set edge_map"
      by (force simp: get_roots_def)
    also have "\<dots> \<longleftrightarrow> dict_get edge_map k = []"
      using dict_get_key [OF dist \<open>k \<in> ?K\<close>] dict_get_distinct [OF dist]
      by (metis map_of_SomeD)
    finally show "k \<in> set ([] @ get_roots edge_map)
             \<longleftrightarrow> set (dict_get edge_map k) \<subseteq> set []" by simp
  qed
  have 6: "\<forall>i < length ([] :: node_name list).
             set (dict_get edge_map ([] ! i)) \<subseteq> set (take i [])" by simp
  show ?thesis unfolding kahn_inv_def by (intro conjI 1 2 3 4 5 6)
qed

lemma topological_sort_run:
  assumes dist: "distinct (dict_keys edge_map)"
  shows "\<exists>result. distinct result \<and> set result \<subseteq> set (dict_keys edge_map)
           \<and> (\<forall>k \<in> set (dict_keys edge_map).
                 k \<in> set result \<longleftrightarrow> set (dict_get edge_map k) \<subseteq> set result)
           \<and> parents_first edge_map result
           \<and> topological_sort edge_map
                = (if length result \<noteq> length edge_map then Inl CycleError else Inr result)"
proof -
  from dist have d: "distinct (map fst edge_map)" by (simp add: dict_keys_def)
  from kahn_loop_inv [OF d refl kahn_inv_initial [OF d]] obtain result in_degree'
    where run: "kahn_loop (build_children_map edge_map) (initial_in_degree edge_map)
                  (get_roots edge_map) [] = Inr result"
      and inv: "kahn_inv edge_map in_degree' [] result" by blast
  note i = inv [unfolded kahn_inv_def]
  note dis = i [THEN conjunct2, THEN conjunct1]
  note sub = i [THEN conjunct2, THEN conjunct2, THEN conjunct1]
  note rdy = i [THEN conjunct2, THEN conjunct2, THEN conjunct2, THEN conjunct2, THEN conjunct1]
  note top = i [THEN conjunct2, THEN conjunct2, THEN conjunct2, THEN conjunct2, THEN conjunct2]
  have "topological_sort edge_map
          = (if length result \<noteq> length edge_map then Inl CycleError else Inr result)"
    unfolding topological_sort_def Let_def
    using run by (simp only: initial_queue initial_in_degree_def [symmetric] sum.case)
  with dis sub rdy top show ?thesis
    unfolding parents_first_def dict_keys_def by (intro exI [of _ result]) simp
qed


definition position :: "node_name list \<Rightarrow> node_name \<Rightarrow> nat" where
  "position xs x = length (takeWhile (\<lambda>y. y \<noteq> x) xs)"

lemma position_nth: "x \<in> set xs \<Longrightarrow> position xs x < length xs \<and> xs ! position xs x = x"
  unfolding position_def by (induction xs) auto

lemma position_take: "x \<in> set (take i xs) \<Longrightarrow> position xs x < i"
  unfolding position_def
proof (induction xs arbitrary: i)
  case Nil
  then show ?case by simp
next
  case (Cons y ys)
  then show ?case by (cases i) auto
qed

lemma finite_edge_rel: "finite (edge_rel m)"
proof -
  have "edge_rel m \<subseteq> set (map fst m) \<times> mentioned m"
  proof
    fix e assume "e \<in> edge_rel m"
    then obtain x y where e: "e = (x, y)" "y \<in> set (dict_get m x)"
      by (auto simp: edge_rel_def)
    then have "x \<in> set (map fst m)" using dict_get_unknown [of x m] by fastforce
    with e dict_get_mentioned [of m x] show "e \<in> set (map fst m) \<times> mentioned m" by auto
  qed
  then show ?thesis by (rule finite_subset) (simp add: finite_mentioned)
qed

lemma full_order_closed_acyclic:
  assumes dist: "distinct (dict_keys edge_map)"
    and all: "set result = set (dict_keys edge_map)"
    and first: "parents_first edge_map result"
  shows "closed_edge_map edge_map \<and> acyclic (edge_rel edge_map)"
proof
  from dist have d: "distinct (map fst edge_map)" by (simp add: dict_keys_def)
  have up: "set (dict_get edge_map c) \<subseteq> set (take (position result c) result)"
    if "c \<in> set result" for c
    using first position_nth [OF that] unfolding parents_first_def by metis
  show "closed_edge_map edge_map"
    unfolding closed_edge_map_def
  proof
    fix e assume e: "e \<in> set edge_map"
    then have "fst e \<in> set result" using all by (simp add: dict_keys_def)
    from up [OF this] have "set (dict_get edge_map (fst e)) \<subseteq> set result"
      by (meson in_set_takeD subset_iff)
    moreover have "dict_get edge_map (fst e) = snd e"
      using dict_get_distinct [OF d, of "fst e" "snd e"] e by simp
    ultimately show "set (snd e) \<subseteq> set (dict_keys edge_map)" using all by simp
  qed
  have "(edge_rel edge_map)\<inverse> \<subseteq> inv_image less_than (position result)"
  proof
    fix e assume "e \<in> (edge_rel edge_map)\<inverse>"
    then obtain p c where e: "e = (p, c)" "p \<in> set (dict_get edge_map c)"
      by (auto simp: edge_rel_def)
    then have "c \<in> set (map fst edge_map)" using dict_get_unknown [of c edge_map] by fastforce
    then have "c \<in> set result" using all by (simp add: dict_keys_def)
    from up [OF this] e have "p \<in> set (take (position result c) result)" by blast
    then have "position result p < position result c" by (rule position_take)
    with e show "e \<in> inv_image less_than (position result)" by simp
  qed
  then have "wf ((edge_rel edge_map)\<inverse>)"
    by (rule wf_subset [OF wf_inv_image [OF wf_less_than]])
  then have "acyclic ((edge_rel edge_map)\<inverse>)" by (rule wf_acyclic)
  then show "acyclic (edge_rel edge_map)" by simp
qed

lemma closed_acyclic_full_order:
  assumes dist: "distinct (dict_keys edge_map)"
    and closed: "closed_edge_map edge_map"
    and acyc: "acyclic (edge_rel edge_map)"
    and sub: "set result \<subseteq> set (dict_keys edge_map)"
    and rdy: "\<forall>k \<in> set (dict_keys edge_map).
                k \<in> set result \<longleftrightarrow> set (dict_get edge_map k) \<subseteq> set result"
  shows "set result = set (dict_keys edge_map)"
proof -
  from dist have d: "distinct (map fst edge_map)" by (simp add: dict_keys_def)
  have wf: "wf ((edge_rel edge_map)\<inverse>)"
    using finite_edge_rel acyc by (rule finite_acyclic_wf_converse)
  have par: "set (dict_get edge_map k) \<subseteq> set (dict_keys edge_map)" for k
  proof
    fix p assume "p \<in> set (dict_get edge_map k)"
    from dict_get_elem [OF this] obtain v where "(k, v) \<in> set edge_map" "p \<in> set v" by blast
    with closed show "p \<in> set (dict_keys edge_map)"
      unfolding closed_edge_map_def by fastforce
  qed
  have "k \<in> set (dict_keys edge_map) \<longrightarrow> k \<in> set result" for k
  proof (induction k rule: wf_induct_rule [OF wf])
    case (1 k)
    show ?case
    proof
      assume k: "k \<in> set (dict_keys edge_map)"
      have "set (dict_get edge_map k) \<subseteq> set result"
      proof
        fix p assume p: "p \<in> set (dict_get edge_map k)"
        then have "(p, k) \<in> (edge_rel edge_map)\<inverse>" by (simp add: edge_rel_def)
        from 1 [OF this] p par show "p \<in> set result" by blast
      qed
      with rdy k show "k \<in> set result" by blast
    qed
  qed
  with sub show ?thesis by blast
qed

lemma topological_sort_characterised:
  assumes dist: "distinct (dict_keys edge_map)"
  shows "(closed_edge_map edge_map \<and> acyclic (edge_rel edge_map) \<longrightarrow>
           (\<exists>result. topological_sort edge_map = Inr result
              \<and> mset result = mset (dict_keys edge_map) \<and> parents_first edge_map result))
       \<and> (\<not> (closed_edge_map edge_map \<and> acyclic (edge_rel edge_map)) \<longrightarrow>
             topological_sort edge_map = Inl CycleError)"
proof -
  from topological_sort_run [OF dist] obtain result
    where dis: "distinct result" and sub: "set result \<subseteq> set (dict_keys edge_map)"
      and rdy: "\<forall>k \<in> set (dict_keys edge_map).
                  k \<in> set result \<longleftrightarrow> set (dict_get edge_map k) \<subseteq> set result"
      and first: "parents_first edge_map result"
      and res: "topological_sort edge_map
                 = (if length result \<noteq> length edge_map then Inl CycleError else Inr result)"
    by blast
  have ck: "card (set (dict_keys edge_map)) = length edge_map"
    using distinct_card [OF dist] by (simp add: dict_keys_def)
  have cr: "card (set result) = length result"
    using dis by (rule distinct_card)
  have len: "length result = length edge_map \<longleftrightarrow> set result = set (dict_keys edge_map)"
  proof
    assume "length result = length edge_map"
    then have "card (set result) = card (set (dict_keys edge_map))"
      using ck cr by simp
    with sub show "set result = set (dict_keys edge_map)"
      by (intro card_subset_eq) simp_all
  next
    assume "set result = set (dict_keys edge_map)"
    then have "card (set result) = card (set (dict_keys edge_map))" by simp
    then show "length result = length edge_map"
      using ck cr by simp
  qed
  show ?thesis
  proof (intro conjI impI)
    assume ca: "closed_edge_map edge_map \<and> acyclic (edge_rel edge_map)"
    then have all: "set result = set (dict_keys edge_map)"
      using closed_acyclic_full_order [OF dist _ _ sub rdy] by blast
    then have "mset result = mset (dict_keys edge_map)"
      using dis dist by (simp add: set_eq_iff_mset_eq_distinct)
    moreover from all len res have "topological_sort edge_map = Inr result" by simp
    ultimately show "\<exists>result. topological_sort edge_map = Inr result
              \<and> mset result = mset (dict_keys edge_map) \<and> parents_first edge_map result"
      using first by blast
  next
    assume nca: "\<not> (closed_edge_map edge_map \<and> acyclic (edge_rel edge_map))"
    have "set result \<noteq> set (dict_keys edge_map)"
      using full_order_closed_acyclic [OF dist _ first] nca by blast
    with len res show "topological_sort edge_map = Inl CycleError" by simp
  qed
qed

section \<open>Ancestors of the diamond\<close>

text \<open>
  C1 (as amended). On the graph \<open>{A: [], B: [A], C: [A], D: [B, C]}\<close> the ancestors of
  \<open>D\<close> are returned as the list \<open>[B, A, C]\<close>: the traversal is depth first, so the
  parent \<open>A\<close> of \<open>B\<close> is recorded before the sibling \<open>C\<close>.
\<close>

theorem get_ancestors_diamond:
  "get_ancestors diamond ''D'' = [''B'', ''A'', ''C'']"
  by (simp add: get_ancestors_def diamond_def dict_get_def)

text \<open>C1 as stated, with the result \<open>[B, C, A]\<close>, does not hold.\<close>

theorem get_ancestors_diamond_counterexample:
  "get_ancestors diamond ''D'' \<noteq> [''B'', ''C'', ''A'']"
  by (simp add: get_ancestors_def diamond_def dict_get_def)

section \<open>A node among its own ancestors\<close>

text \<open>
  C3 as stated does not hold on an edge map with a cycle: the traversal does not mark the
  start node as visited, so a node that is its own parent is returned among its ancestors
  and among its descendants.
\<close>

theorem own_ancestor_counterexample:
  "''A'' \<in> set (get_ancestors self_parent ''A'') \<and> ''A'' \<in> set (get_descendants self_parent ''A'')"
  by (simp add: get_ancestors_def get_descendants_def self_parent_def dict_get_def
      build_children_map_def)

text \<open>
  C3 (as amended). A node is listed among its own ancestors exactly when it lies on a
  cycle of parent edges, and likewise among its own descendants; so a node that lies on no
  cycle is neither its own ancestor nor its own descendant.
\<close>

theorem own_ancestor_iff_cycle:
  assumes "distinct (dict_keys edge_map)"
  shows "(n \<in> set (get_ancestors edge_map n)) = ((n, n) \<in> (edge_rel edge_map)\<^sup>+)
       \<and> (n \<in> set (get_descendants edge_map n)) = ((n, n) \<in> (edge_rel edge_map)\<^sup>+)"
proof
  show "(n \<in> set (get_ancestors edge_map n)) = ((n, n) \<in> (edge_rel edge_map)\<^sup>+)"
    by (simp add: set_get_ancestors)
  have "(n \<in> set (get_descendants edge_map n)) = ((n, n) \<in> ((edge_rel edge_map)\<inverse>)\<^sup>+)"
    by (simp add: set_get_descendants edge_rel_children_map [OF assms])
  also have "\<dots> = ((n, n) \<in> (edge_rel edge_map)\<^sup>+)"
    by (simp add: trancl_converse)
  finally show "(n \<in> set (get_descendants edge_map n)) = ((n, n) \<in> (edge_rel edge_map)\<^sup>+)" .
qed

theorem own_ancestor_iff_cycle_witness:
  "distinct (dict_keys diamond)
   \<and> ''D'' \<notin> set (get_ancestors diamond ''D'')
   \<and> (''D'', ''D'') \<notin> (edge_rel diamond)\<^sup>+
   \<and> ''D'' \<notin> set (get_descendants diamond ''D'')"
proof -
  have d: "distinct (dict_keys diamond)" by (simp add: diamond_def dict_keys_def)
  have a: "''D'' \<notin> set (get_ancestors diamond ''D'')"
    by (simp add: get_ancestors_def diamond_def dict_get_def)
  from own_ancestor_iff_cycle [OF d, of "''D''"] d a show ?thesis by blast
qed

section \<open>The children index of the specification\<close>

text \<open>
  The children of a node, read off the edge map alone: the keys that list the node as a
  parent, in key order, once for every time they list it (\<open>children_of\<close>). The children
  index maps every key and every listed parent to its children.
\<close>

definition children_index :: "adjacency \<Rightarrow> adjacency" where
  "children_index edge_map =
     map (\<lambda>k. (k, children_of edge_map k)) (remdups (dict_keys edge_map @ concat (map snd edge_map)))"

lemma children_of_unlisted:
  "k \<notin> set (concat (map snd edge_map)) \<Longrightarrow> children_of edge_map k = []"
  by (induction edge_map) (auto simp: children_of_def count_list_0_iff)

lemma dict_get_children_index: "dict_get (children_index edge_map) k = children_of edge_map k"
proof (cases "k \<in> set (dict_keys edge_map @ concat (map snd edge_map))")
  case True
  then show ?thesis
    unfolding children_index_def dict_get_def map_of_map_restrict by simp
next
  case False
  then have "children_of edge_map k = []" by (simp add: children_of_unlisted)
  with False show ?thesis
    unfolding children_index_def dict_get_def map_of_map_restrict by simp
qed

lemma dfs_preorder_cong:
  assumes "\<And>k. dict_get m k = dict_get m' k"
  shows "dfs_preorder m ps seen = dfs_preorder m' ps seen"
  using assms
proof (induction m ps seen rule: dfs_preorder.induct)
  case (1 m seen)
  show ?case by simp
next
  case (2 m x stack seen)
  show ?case
  proof (cases "x \<in> seen")
    case True
    with 2 show ?thesis by simp
  next
    case False
    with "2.IH"(2) "2.prems"
    have "dfs_preorder m (dict_get m x @ stack) (insert x seen)
            = dfs_preorder m' (dict_get m x @ stack) (insert x seen)" by blast
    with False "2.prems" [of x] show ?thesis by simp
  qed
qed

lemma bfs_loop_cong:
  assumes "\<And>k. dict_get m k = dict_get m' k"
  shows "bfs_loop m visited queue = bfs_loop m' visited queue"
  using assms
proof (induction m visited queue rule: bfs_loop.induct)
  case (1 m visited)
  show ?case by simp
next
  case (2 m visited current d queue)
  obtain v q where r: "discover d (dict_get m current) (visited, queue) = (v, q)"
    by (cases "discover d (dict_get m current) (visited, queue)")
  from "2.IH" [OF r [symmetric] "2.prems"] have "bfs_loop m v q = bfs_loop m' v q" .
  with r "2.prems" [of current] show ?case by simp
qed

lemma children_index_lookup:
  "dict_get (build_children_map edge_map) k = dict_get (children_index edge_map) k"
  by (simp add: dict_get_build_children_map dict_get_children_index)

lemma edge_rel_children_index:
  assumes "distinct (dict_keys edge_map)"
  shows "edge_rel (children_index edge_map) = (edge_rel edge_map)\<inverse>"
proof -
  have "edge_rel (children_index edge_map) = edge_rel (build_children_map edge_map)"
    by (simp add: edge_rel_def children_index_lookup)
  then show ?thesis by (simp add: edge_rel_children_map [OF assms])
qed

lemma get_descendants_children_index:
  "get_descendants edge_map n
     = dfs_preorder (children_index edge_map) (children_of edge_map n) {}"
proof -
  have "get_descendants edge_map n
          = dfs_preorder (build_children_map edge_map) (children_of edge_map n) {}"
    by (simp add: get_descendants_dfs_preorder get_children_def dict_get_build_children_map)
  also have "\<dots> = dfs_preorder (children_index edge_map) (children_of edge_map n) {}"
    by (rule dfs_preorder_cong) (rule children_index_lookup)
  finally show ?thesis .
qed

lemma set_get_descendants_converse:
  assumes "distinct (dict_keys edge_map)"
  shows "set (get_descendants edge_map n) = ((edge_rel edge_map)\<inverse>)\<^sup>+ `` {n}"
  by (simp add: set_get_descendants edge_rel_children_map [OF assms])

section \<open>Order of ancestors and descendants\<close>

text \<open>
  C5. \<open>get_ancestors\<close> returns the first-visit order of the pre-order depth-first search
  that starts from the parents of the node: the list is \<open>dfs_preorder\<close> over the edge map,
  started on the parent list with nothing seen. It lists every ancestor (every node
  reachable over one or more parent edges) and lists it once. \<open>get_descendants\<close> returns
  the order of the same search over the children index of the edge map, started on the
  children of the node; it lists every descendant (every node from which the node is
  reachable over one or more parent edges) and lists it once.
\<close>

theorem ancestors_first_visit_order:
  "get_ancestors edge_map n = dfs_preorder edge_map (get_parents edge_map n) {}
   \<and> distinct (get_ancestors edge_map n)
   \<and> set (get_ancestors edge_map n) = (edge_rel edge_map)\<^sup>+ `` {n}
   \<and> get_descendants edge_map n
        = dfs_preorder (children_index edge_map) (children_of edge_map n) {}
   \<and> distinct (get_descendants edge_map n)
   \<and> (distinct (dict_keys edge_map) \<longrightarrow>
         set (get_descendants edge_map n) = ((edge_rel edge_map)\<inverse>)\<^sup>+ `` {n})"
proof (intro conjI impI)
  show "distinct (get_ancestors edge_map n)"
    by (simp add: get_ancestors_dfs_preorder dfs_preorder_fresh)
  show "distinct (get_descendants edge_map n)"
    by (simp add: get_descendants_dfs_preorder dfs_preorder_fresh)
  show "set (get_descendants edge_map n) = ((edge_rel edge_map)\<inverse>)\<^sup>+ `` {n}"
    if "distinct (dict_keys edge_map)"
    using that by (rule set_get_descendants_converse)
qed (rule get_ancestors_dfs_preorder get_descendants_children_index set_get_ancestors)+

theorem ancestors_first_visit_order_witness:
  "distinct (dict_keys diamond)
   \<and> get_descendants diamond ''A'' = [''B'', ''D'', ''C'']
   \<and> set (get_descendants diamond ''A'') = ((edge_rel diamond)\<inverse>)\<^sup>+ `` {''A''}
   \<and> dfs_preorder (children_index diamond) (children_of diamond ''A'') {} = [''B'', ''D'', ''C'']"
proof -
  have d: "distinct (dict_keys diamond)" by (simp add: diamond_def dict_keys_def)
  have g: "get_descendants diamond ''A'' = [''B'', ''D'', ''C'']"
    by (simp add: get_descendants_def diamond_def dict_get_def build_children_map_def)
  note t = ancestors_first_visit_order [of diamond "''A''"]
  from t have o: "get_descendants diamond ''A''
                    = dfs_preorder (children_index diamond) (children_of diamond ''A'') {}"
    by blast
  from t d have s: "set (get_descendants diamond ''A'') = ((edge_rel diamond)\<inverse>)\<^sup>+ `` {''A''}"
    by blast
  from d g s o show ?thesis by (simp only:)
qed

section \<open>Adding an edge\<close>

lemma keys_append_child:
  "map fst (append_child p c d) = (if p \<in> fst ` set d then map fst d else map fst d @ [p])"
  by (induction d) force+

lemma dict_get_add_edge:
  "dict_get (add_edge a b edge_map) k
     = (if k = b then dict_get edge_map b @ [a] else dict_get edge_map k)"
  by (simp add: add_edge_def dict_get_append_child)

lemma edge_rel_add_edge: "edge_rel (add_edge a b edge_map) = insert (b, a) (edge_rel edge_map)"
  by (auto simp: edge_rel_def dict_get_add_edge split: if_splits)

lemma keys_add_edge:
  "set (dict_keys (add_edge a b edge_map)) = insert b (set (dict_keys edge_map))"
  by (auto simp: add_edge_def dict_keys_def keys_append_child)

lemma distinct_add_edge:
  "distinct (dict_keys edge_map) \<Longrightarrow> distinct (dict_keys (add_edge a b edge_map))"
  by (auto simp: add_edge_def dict_keys_def keys_append_child)

lemma closed_edge_map_iff:
  assumes "distinct (dict_keys edge_map)"
  shows "closed_edge_map edge_map
           \<longleftrightarrow> (\<forall>k. set (dict_get edge_map k) \<subseteq> set (dict_keys edge_map))"
proof
  assume c: "closed_edge_map edge_map"
  show "\<forall>k. set (dict_get edge_map k) \<subseteq> set (dict_keys edge_map)"
  proof (intro allI subsetI)
    fix k p assume "p \<in> set (dict_get edge_map k)"
    from dict_get_elem [OF this] obtain v where "(k, v) \<in> set edge_map" "p \<in> set v" by blast
    with c show "p \<in> set (dict_keys edge_map)" unfolding closed_edge_map_def by fastforce
  qed
next
  assume a: "\<forall>k. set (dict_get edge_map k) \<subseteq> set (dict_keys edge_map)"
  from assms have d: "distinct (map fst edge_map)" by (simp add: dict_keys_def)
  show "closed_edge_map edge_map"
    unfolding closed_edge_map_def
  proof
    fix e assume "e \<in> set edge_map"
    then have "dict_get edge_map (fst e) = snd e"
      using dict_get_distinct [OF d, of "fst e" "snd e"] by simp
    with a show "set (snd e) \<subseteq> set (dict_keys edge_map)" by metis
  qed
qed

lemma closed_add_edge:
  assumes dist: "distinct (dict_keys edge_map)"
    and closed: "closed_edge_map edge_map"
    and a: "a \<in> set (dict_keys edge_map)"
  shows "closed_edge_map (add_edge a b edge_map)"
proof -
  have "set (dict_get (add_edge a b edge_map) k) \<subseteq> set (dict_keys (add_edge a b edge_map))" for k
    using closed_edge_map_iff [OF dist] closed a
    by (auto simp: dict_get_add_edge keys_add_edge)
  then show ?thesis using closed_edge_map_iff [OF distinct_add_edge [OF dist]] by blast
qed

section \<open>The cycle check against the sort\<close>

text \<open>
  C4 as stated does not hold: on an edge map that already has a cycle the sort fails
  whatever edge is added, while \<open>would_create_cycle\<close> only looks for a path from the target
  back to the source.
\<close>

theorem would_create_cycle_counterexample:
  "\<not> would_create_cycle two_cycle ''C'' ''D''
   \<and> topological_sort (add_edge ''C'' ''D'' two_cycle) = Inl CycleError"
  by (simp add: would_create_cycle_def topological_sort_def two_cycle_def add_edge_def
      build_children_map_def dict_get_def)

text \<open>
  C4 (as amended). On an edge map that \<open>topological_sort\<close> can order, and for a source that
  is a key of it, \<open>would_create_cycle\<close> is true exactly when \<open>topological_sort\<close> fails with
  the cycle error after the edge is added.
\<close>

theorem would_create_cycle_sort_fails:
  assumes dist: "distinct (dict_keys edge_map)"
    and sorted: "topological_sort edge_map = Inr order"
    and a: "a \<in> set (dict_keys edge_map)"
  shows "would_create_cycle edge_map a b
           \<longleftrightarrow> topological_sort (add_edge a b edge_map) = Inl CycleError"
proof -
  let ?R = "edge_rel edge_map"
  have ca: "closed_edge_map edge_map \<and> acyclic ?R"
    using topological_sort_characterised [OF dist] sorted by auto
  have dist': "distinct (dict_keys (add_edge a b edge_map))"
    by (rule distinct_add_edge [OF dist])
  have closed': "closed_edge_map (add_edge a b edge_map)"
    using closed_add_edge [OF dist _ a] ca by blast
  have "topological_sort (add_edge a b edge_map) = Inl CycleError
          \<longleftrightarrow> \<not> acyclic (edge_rel (add_edge a b edge_map))"
    using topological_sort_characterised [OF dist'] closed' by auto
  also have "\<dots> \<longleftrightarrow> (a, b) \<in> ?R\<^sup>*"
    using ca by (simp add: edge_rel_add_edge)
  also have "\<dots> \<longleftrightarrow> would_create_cycle edge_map a b"
    by (rule would_create_cycle_iff [OF dist, symmetric])
  finally show ?thesis by blast
qed

theorem would_create_cycle_sort_fails_witness:
  "distinct (dict_keys diamond)
   \<and> topological_sort diamond = Inr [''A'', ''B'', ''C'', ''D'']
   \<and> ''D'' \<in> set (dict_keys diamond)
   \<and> would_create_cycle diamond ''D'' ''A''
   \<and> topological_sort (add_edge ''D'' ''A'' diamond) = Inl CycleError
   \<and> \<not> would_create_cycle diamond ''A'' ''D''
   \<and> topological_sort (add_edge ''A'' ''D'' diamond) \<noteq> Inl CycleError"
proof -
  have d: "distinct (dict_keys diamond)" by (simp add: diamond_def dict_keys_def)
  have s: "topological_sort diamond = Inr [''A'', ''B'', ''C'', ''D'']"
    by (simp add: topological_sort_def diamond_def build_children_map_def dict_get_def)
  have k: "''D'' \<in> set (dict_keys diamond)" "''A'' \<in> set (dict_keys diamond)"
    by (simp_all add: diamond_def dict_keys_def)
  have w: "would_create_cycle diamond ''D'' ''A''" "\<not> would_create_cycle diamond ''A'' ''D''"
    by (simp_all add: would_create_cycle_def diamond_def build_children_map_def dict_get_def)
  from would_create_cycle_sort_fails [OF d s k(1), of "''A''"]
    would_create_cycle_sort_fails [OF d s k(2), of "''D''"] d s k w
  show ?thesis by blast
qed

section \<open>The sort on an edge map with an external parent\<close>

text \<open>
  C2. The edge map \<open>{child: [parent1, parent2], grandchild: [child]}\<close> of the module's
  usage example has no cycle, yet \<open>topological_sort\<close> raises the cycle error on it: the
  in-degree of \<open>child\<close> counts two parents that are not keys and are therefore never
  released. (On a closed edge map the sort succeeds exactly when there is no cycle, see
  \<open>topological_sort_characterised\<close>.)
\<close>

theorem topological_sort_external_parent:
  "acyclic (edge_rel external_parent)
   \<and> topological_sort external_parent = Inl CycleError"
proof
  have "edge_rel external_parent \<subseteq> inv_image less_than generation"
    by (auto simp: edge_rel_def external_parent_def dict_get_def generation_def
        split: if_splits)
  then have "wf (edge_rel external_parent)"
    by (rule wf_subset [OF wf_inv_image [OF wf_less_than]])
  then show "acyclic (edge_rel external_parent)" by (rule wf_acyclic)
  show "topological_sort external_parent = Inl CycleError"
    by (simp add: topological_sort_def external_parent_def build_children_map_def dict_get_def)
qed

section \<open>What the breadth-first loop records, as distances\<close>

lemma least_positive_path_distance:
  "x \<noteq> n \<Longrightarrow> least_positive_path R n x d \<Longrightarrow> shortest_distance R n x d"
  unfolding least_positive_path_def shortest_distance_def
proof (intro conjI allI impI)
  fix k assume a: "x \<noteq> n" "1 \<le> d \<and> (n, x) \<in> R ^^ d \<and> (\<forall>k. 1 \<le> k \<and> k < d \<longrightarrow> (n, x) \<notin> R ^^ k)"
    and k: "k < d"
  show "(n, x) \<notin> R ^^ k"
  proof (cases k)
    case 0
    with a(1) show ?thesis by auto
  next
    case (Suc j)
    then have "1 \<le> k" by simp
    with a(2) k show ?thesis by blast
  qed
qed simp

lemma least_positive_path_cycle: "least_positive_path R n n d \<Longrightarrow> shortest_cycle R n d"
  by (simp add: least_positive_path_def shortest_cycle_def)

lemma degree_records:
  fixes m n objs
  defines "r \<equiv> with_degree_result objs (bfs_loop m [] [(n, 0)])"
  shows "\<forall>e \<in> set r. node e = objs (name e)
           \<and> (name e \<noteq> n \<longrightarrow> shortest_distance (edge_rel m) n (name e) (degree e))
           \<and> (name e = n \<longrightarrow> shortest_cycle (edge_rel m) n (degree e))"
proof
  fix e assume "e \<in> set r"
  with with_degree_result_props(5) [of objs m n]
  have p: "least_positive_path (edge_rel m) n (name e) (degree e)" and o: "node e = objs (name e)"
    unfolding r_def by blast+
  show "node e = objs (name e)
           \<and> (name e \<noteq> n \<longrightarrow> shortest_distance (edge_rel m) n (name e) (degree e))
           \<and> (name e = n \<longrightarrow> shortest_cycle (edge_rel m) n (degree e))"
  proof (intro conjI impI)
    show "node e = objs (name e)" by (rule o)
    show "shortest_distance (edge_rel m) n (name e) (degree e)" if "name e \<noteq> n"
      using that p by (rule least_positive_path_distance)
    show "shortest_cycle (edge_rel m) n (degree e)" if "name e = n"
      using p that least_positive_path_cycle [of "edge_rel m" n "degree e"] by simp
  qed
qed

lemma bfs_loop_children_index:
  "bfs_loop (build_children_map edge_map) visited queue
     = bfs_loop (children_index edge_map) visited queue"
  by (rule bfs_loop_cong) (rule children_index_lookup)

section \<open>Degree-ranked ancestors and descendants\<close>

text \<open>
  C8 as stated does not hold for the start node: it is not marked as visited, so on a cycle
  it is discovered again and recorded at the length of the cycle, while its distance from
  itself is 0. On \<open>{A: [B], B: [A], C: [], D: []}\<close> the ancestors of \<open>A\<close> hold \<open>A\<close> at
  degree 2.
\<close>

theorem degree_ranked_queries_counterexample:
  "\<lparr>node = None, name = ''A'', degree = 2\<rparr>
     \<in> set (get_ancestors_with_degree (\<lambda>_. None :: unit option) two_cycle ''A'')
   \<and> shortest_distance (edge_rel two_cycle) ''A'' ''A'' 0
   \<and> \<not> shortest_distance (edge_rel two_cycle) ''A'' ''A'' 2"
proof (intro conjI)
  show "\<lparr>node = None, name = ''A'', degree = 2\<rparr>
     \<in> set (get_ancestors_with_degree (\<lambda>_. None :: unit option) two_cycle ''A'')"
    by (simp add: get_ancestors_with_degree_def with_degree_result_def two_cycle_def dict_get_def)
  show "shortest_distance (edge_rel two_cycle) ''A'' ''A'' 0"
    by (simp add: shortest_distance_def)
  show "\<not> shortest_distance (edge_rel two_cycle) ''A'' ''A'' 2"
  proof
    assume "shortest_distance (edge_rel two_cycle) ''A'' ''A'' 2"
    then have "(''A'', ''A'') \<notin> edge_rel two_cycle ^^ 0"
      unfolding shortest_distance_def by (meson zero_less_numeral)
    then show False by simp
  qed
qed

text \<open>
  C8 (as amended). \<open>get_ancestors_with_degree\<close> returns the nodes in the order in which the
  breadth-first loop discovered them: the final sort changes nothing, since the degrees
  are discovered in ascending order. Every ancestor is recorded once. The degree of a
  recorded node other than the start node is its shortest-path distance from the start
  node over parent edges; the start node is recorded exactly when it lies on a cycle, at
  the length of its shortest cycle. \<open>get_descendants_with_degree\<close> does the same over the
  children index of the edge map, with distances over child edges.
\<close>

theorem degree_ranked_queries:
  "map (\<lambda>e. (name e, degree e)) (get_ancestors_with_degree objs edge_map n)
      = bfs_loop edge_map [] [(n, 0)]
   \<and> distinct (map name (get_ancestors_with_degree objs edge_map n))
   \<and> sorted (map degree (get_ancestors_with_degree objs edge_map n))
   \<and> name ` set (get_ancestors_with_degree objs edge_map n) = (edge_rel edge_map)\<^sup>+ `` {n}
   \<and> (\<forall>e \<in> set (get_ancestors_with_degree objs edge_map n).
          node e = objs (name e)
          \<and> (name e \<noteq> n \<longrightarrow> shortest_distance (edge_rel edge_map) n (name e) (degree e))
          \<and> (name e = n \<longrightarrow> shortest_cycle (edge_rel edge_map) n (degree e)))
   \<and> map (\<lambda>e. (name e, degree e)) (get_descendants_with_degree objs edge_map n)
        = bfs_loop (children_index edge_map) [] [(n, 0)]
   \<and> distinct (map name (get_descendants_with_degree objs edge_map n))
   \<and> sorted (map degree (get_descendants_with_degree objs edge_map n))
   \<and> (distinct (dict_keys edge_map) \<longrightarrow>
         name ` set (get_descendants_with_degree objs edge_map n)
           = ((edge_rel edge_map)\<inverse>)\<^sup>+ `` {n}
         \<and> (\<forall>e \<in> set (get_descendants_with_degree objs edge_map n).
               node e = objs (name e)
               \<and> (name e \<noteq> n \<longrightarrow>
                     shortest_distance ((edge_rel edge_map)\<inverse>) n (name e) (degree e))
               \<and> (name e = n \<longrightarrow> shortest_cycle ((edge_rel edge_map)\<inverse>) n (degree e))))"
proof (intro conjI impI)
  assume d: "distinct (dict_keys edge_map)"
  show "name ` set (get_descendants_with_degree objs edge_map n)
           = ((edge_rel edge_map)\<inverse>)\<^sup>+ `` {n}"
    unfolding get_descendants_with_degree_def
    using with_degree_result_props(4) [of objs "build_children_map edge_map" n]
    by (simp only: edge_rel_children_map [OF d])
  show "\<forall>e \<in> set (get_descendants_with_degree objs edge_map n).
               node e = objs (name e)
               \<and> (name e \<noteq> n \<longrightarrow>
                     shortest_distance ((edge_rel edge_map)\<inverse>) n (name e) (degree e))
               \<and> (name e = n \<longrightarrow> shortest_cycle ((edge_rel edge_map)\<inverse>) n (degree e))"
    unfolding get_descendants_with_degree_def
    using degree_records [of objs "build_children_map edge_map" n]
    by (simp only: edge_rel_children_map [OF d])
next
  show "map (\<lambda>e. (name e, degree e)) (get_descendants_with_degree objs edge_map n)
        = bfs_loop (children_index edge_map) [] [(n, 0)]"
    unfolding get_descendants_with_degree_def
    using with_degree_result_props(1) [of objs "build_children_map edge_map" n]
    by (simp only: bfs_loop_children_index)
next
  show "\<forall>e \<in> set (get_ancestors_with_degree objs edge_map n).
          node e = objs (name e)
          \<and> (name e \<noteq> n \<longrightarrow> shortest_distance (edge_rel edge_map) n (name e) (degree e))
          \<and> (name e = n \<longrightarrow> shortest_cycle (edge_rel edge_map) n (degree e))"
    unfolding get_ancestors_with_degree_def by (rule degree_records)
qed (simp_all only: get_ancestors_with_degree_def get_descendants_with_degree_def
    with_degree_result_props)

theorem degree_ranked_queries_witness:
  "distinct (dict_keys diamond)
   \<and> get_descendants_with_degree (\<lambda>_. None :: unit option) diamond ''A''
       = [\<lparr>node = None, name = ''B'', degree = 1\<rparr>, \<lparr>node = None, name = ''C'', degree = 1\<rparr>,
          \<lparr>node = None, name = ''D'', degree = 2\<rparr>]
   \<and> shortest_distance ((edge_rel diamond)\<inverse>) ''A'' ''D'' 2
   \<and> get_ancestors_with_degree (\<lambda>_. None :: unit option) diamond ''D''
       = [\<lparr>node = None, name = ''B'', degree = 1\<rparr>, \<lparr>node = None, name = ''C'', degree = 1\<rparr>,
          \<lparr>node = None, name = ''A'', degree = 2\<rparr>]
   \<and> shortest_distance (edge_rel diamond) ''D'' ''A'' 2
   \<and> get_ancestors_with_degree (\<lambda>_. None :: unit option) two_cycle ''A''
       = [\<lparr>node = None, name = ''B'', degree = 1\<rparr>, \<lparr>node = None, name = ''A'', degree = 2\<rparr>]
   \<and> shortest_cycle (edge_rel two_cycle) ''A'' 2"
proof -
  let ?none = "\<lambda>_. None :: unit option"
  have d: "distinct (dict_keys diamond)" by (simp add: diamond_def dict_keys_def)
  have rd: "get_descendants_with_degree ?none diamond ''A''
       = [\<lparr>node = None, name = ''B'', degree = 1\<rparr>, \<lparr>node = None, name = ''C'', degree = 1\<rparr>,
          \<lparr>node = None, name = ''D'', degree = 2\<rparr>]"
    by (simp add: get_descendants_with_degree_def with_degree_result_def diamond_def dict_get_def
        build_children_map_def)
  have ra: "get_ancestors_with_degree ?none diamond ''D''
       = [\<lparr>node = None, name = ''B'', degree = 1\<rparr>, \<lparr>node = None, name = ''C'', degree = 1\<rparr>,
          \<lparr>node = None, name = ''A'', degree = 2\<rparr>]"
    by (simp add: get_ancestors_with_degree_def with_degree_result_def diamond_def dict_get_def)
  have rc: "get_ancestors_with_degree ?none two_cycle ''A''
       = [\<lparr>node = None, name = ''B'', degree = 1\<rparr>, \<lparr>node = None, name = ''A'', degree = 2\<rparr>]"
    by (simp add: get_ancestors_with_degree_def with_degree_result_def two_cycle_def dict_get_def)
  have md: "\<lparr>node = None, name = ''D'', degree = 2\<rparr>
              \<in> set (get_descendants_with_degree ?none diamond ''A'')"
    unfolding rd by simp
  have ma: "\<lparr>node = None, name = ''A'', degree = 2\<rparr>
              \<in> set (get_ancestors_with_degree ?none diamond ''D'')"
    unfolding ra by simp
  have mc: "\<lparr>node = None, name = ''A'', degree = 2\<rparr>
              \<in> set (get_ancestors_with_degree ?none two_cycle ''A'')"
    unfolding rc by simp
  from degree_ranked_queries [of ?none diamond "''A''"] d md
  have 1: "shortest_distance ((edge_rel diamond)\<inverse>) ''A'' ''D'' 2" by fastforce
  from degree_ranked_queries [of ?none diamond "''D''"] ma
  have 2: "shortest_distance (edge_rel diamond) ''D'' ''A'' 2" by fastforce
  from degree_ranked_queries [of ?none two_cycle "''A''"] mc
  have 3: "shortest_cycle (edge_rel two_cycle) ''A'' 2" by fastforce
  from d rd ra rc 1 2 3 show ?thesis by (intro conjI)
qed

section \<open>Queries about unknown nodes\<close>

text \<open>
  C9. \<open>get_parents\<close> and \<open>get_children\<close> are total: neither has an error branch, as the
  source reads both dictionaries with \<open>get(node_name, [])\<close>. For a node that is not a key of
  the edge map, \<open>get_parents\<close> returns the empty list, and \<open>get_children\<close> returns the
  nodes that list it as a parent, hence the empty list when no parent list mentions it.
\<close>

theorem unknown_node_queries:
  "node_name \<notin> set (dict_keys edge_map) \<Longrightarrow>
     get_parents edge_map node_name = []
     \<and> set (get_children edge_map node_name)
         = {c. \<exists>ps. (c, ps) \<in> set edge_map \<and> node_name \<in> set ps}
     \<and> ((\<forall>e \<in> set edge_map. node_name \<notin> set (snd e)) \<longrightarrow> get_children edge_map node_name = [])"
proof (intro conjI impI)
  assume "node_name \<notin> set (dict_keys edge_map)"
  then show "get_parents edge_map node_name = []"
    by (simp add: get_parents_def dict_keys_def dict_get_unknown)
next
  show "set (get_children edge_map node_name)
         = {c. \<exists>ps. (c, ps) \<in> set edge_map \<and> node_name \<in> set ps}"
    by (simp add: get_children_def dict_get_build_children_map set_children_of)
next
  assume "\<forall>e \<in> set edge_map. node_name \<notin> set (snd e)"
  then have "set (get_children edge_map node_name) = {}"
    by (auto simp: get_children_def dict_get_build_children_map set_children_of)
  then show "get_children edge_map node_name = []" by simp
qed

theorem unknown_node_queries_witness:
  "''Z'' \<notin> set (dict_keys diamond)
   \<and> ''Z'' \<notin> \<Union> (set ` snd ` set diamond)
   \<and> get_parents diamond ''Z'' = [] \<and> get_children diamond ''Z'' = []"
proof -
  have k: "''Z'' \<notin> set (dict_keys diamond)" by (simp add: diamond_def dict_keys_def)
  have p: "\<forall>e \<in> set diamond. ''Z'' \<notin> set (snd e)" by (simp add: diamond_def)
  from p have u: "''Z'' \<notin> \<Union> (set ` snd ` set diamond)" by blast
  from unknown_node_queries [OF k] k p u show ?thesis by blast
qed

section \<open>Roots\<close>

text \<open>
  C10. \<open>get_roots\<close> returns exactly the keys of the edge map whose parent list is empty,
  in key order. A node that is not a key is never returned, although its parent list reads
  as empty.
\<close>

theorem get_roots_keys:
  "distinct (dict_keys edge_map) \<Longrightarrow>
     get_roots edge_map = filter (\<lambda>k. get_parents edge_map k = []) (dict_keys edge_map)
     \<and> (n \<notin> set (dict_keys edge_map) \<longrightarrow>
           get_parents edge_map n = [] \<and> n \<notin> set (get_roots edge_map))"
proof (intro conjI impI)
  assume d: "distinct (dict_keys edge_map)"
  have "\<forall>e \<in> set edge_map. get_parents edge_map (fst e) = snd e"
    using dict_get_distinct [of edge_map] d
    by (auto simp: get_parents_def dict_keys_def)
  then have "filter (\<lambda>(name, parents). parents = []) edge_map
               = filter (\<lambda>e. get_parents edge_map (fst e) = []) edge_map"
    by (intro filter_cong) auto
  then show "get_roots edge_map = filter (\<lambda>k. get_parents edge_map k = []) (dict_keys edge_map)"
    by (simp add: get_roots_def dict_keys_def filter_map comp_def)
next
  assume "n \<notin> set (dict_keys edge_map)"
  then show "get_parents edge_map n = []"
    by (simp add: get_parents_def dict_keys_def dict_get_unknown)
next
  assume "n \<notin> set (dict_keys edge_map)"
  then show "n \<notin> set (get_roots edge_map)"
    by (auto simp: get_roots_def dict_keys_def)
qed

theorem get_roots_keys_witness:
  "distinct (dict_keys external_parent)
   \<and> ''parent1'' \<notin> set (dict_keys external_parent)
   \<and> get_roots external_parent = []
   \<and> get_parents external_parent ''parent1'' = []
   \<and> ''parent1'' \<notin> set (get_roots external_parent)"
proof -
  have d: "distinct (dict_keys external_parent)" by (simp add: external_parent_def dict_keys_def)
  have k: "''parent1'' \<notin> set (dict_keys external_parent)"
    by (simp add: external_parent_def dict_keys_def)
  have r: "get_roots external_parent = []" by (simp add: external_parent_def get_roots_def)
  from get_roots_keys [OF d, of "''parent1''"] d k r show ?thesis by blast
qed

section \<open>The consistency check\<close>






section \<open>The comparator\<close>

lemma compare_valid_iff:
  "is_valid (compare_topologies na ea nb eb) = (na = nb \<and> ea = eb)"
proof -
  have "is_valid (compare_topologies na ea nb eb)
          = (nb |-| na = {||} \<and> na |-| nb = {||} \<and> eb |-| ea = {||} \<and> ea |-| eb = {||})"
    by (simp add: compare_topologies_def Let_def)
  also have "\<dots> = (na = nb \<and> ea = eb)" by blast
  finally show ?thesis .
qed

lemma compare_fields:
  "missing_nodes_in_a (compare_topologies na ea nb eb) = nb |-| na"
  "missing_nodes_in_b (compare_topologies na ea nb eb) = na |-| nb"
  "missing_edges_in_a (compare_topologies na ea nb eb) = eb |-| ea"
  "missing_edges_in_b (compare_topologies na ea nb eb) = ea |-| eb"
  "node_count_match (compare_topologies na ea nb eb) = (fcard na = fcard nb)"
  "edge_count_match (compare_topologies na ea nb eb) = (fcard ea = fcard eb)"
  by (simp_all add: compare_topologies_def Let_def)

lemma example_missing_nodes: "{|''1'', ''2'', ''3''|} |-| {|''1'', ''2''|} = {|''3''|}"
proof (rule fset_eqI)
  fix x :: string
  show "x |\<in>| {|''1'', ''2'', ''3''|} |-| {|''1'', ''2''|} \<longleftrightarrow> x |\<in>| {|''3''|}"
    by auto
qed

lemma example_nodes_differ: "{|''1'', ''2''|} \<noteq> {|''1'', ''2'', ''3''|}"
proof
  assume "{|''1'', ''2''|} = {|''1'', ''2'', ''3''|}"
  then have "''3'' |\<in>| {|''1'', ''2''|}" by simp
  then show False by simp
qed

lemma swapped_nodes_differ: "{|''1'', ''2''|} \<noteq> {|''1'', ''3''|}"
proof
  assume "{|''1'', ''2''|} = {|''1'', ''3''|}"
  then have "''3'' |\<in>| {|''1'', ''2''|}" by simp
  then show False by simp
qed

lemma swapped_counts:
  "fcard {|''1'', ''2''|} = fcard {|''1'', ''3''|}"
  "fcard {|(''1'', ''2'')|} = fcard {|(''1'', ''3'')|}"
  by (simp_all add: fcard_finsert_if)

text \<open>
  C7. The report of \<open>compare_topologies\<close> is valid exactly when its four difference sets
  are empty, which are the set differences of the inputs; the two count flags compare the
  sizes and are reported separately, so inputs of equal sizes with different members are
  not valid. On A = (nodes {1,2}, edges {(1,2)}) and B = (nodes {1,2,3}, edges {(1,2)})
  the report is not valid and the nodes missing in A are {3}.
\<close>

theorem compare_topologies_report:
  "is_valid (compare_topologies nodes_a edges_a nodes_b edges_b)
     = (missing_nodes_in_a (compare_topologies nodes_a edges_a nodes_b edges_b) = {||}
        \<and> missing_nodes_in_b (compare_topologies nodes_a edges_a nodes_b edges_b) = {||}
        \<and> missing_edges_in_a (compare_topologies nodes_a edges_a nodes_b edges_b) = {||}
        \<and> missing_edges_in_b (compare_topologies nodes_a edges_a nodes_b edges_b) = {||})
   \<and> missing_nodes_in_a (compare_topologies nodes_a edges_a nodes_b edges_b) = nodes_b |-| nodes_a
   \<and> missing_nodes_in_b (compare_topologies nodes_a edges_a nodes_b edges_b) = nodes_a |-| nodes_b
   \<and> missing_edges_in_a (compare_topologies nodes_a edges_a nodes_b edges_b) = edges_b |-| edges_a
   \<and> missing_edges_in_b (compare_topologies nodes_a edges_a nodes_b edges_b) = edges_a |-| edges_b
   \<and> node_count_match (compare_topologies nodes_a edges_a nodes_b edges_b)
        = (fcard nodes_a = fcard nodes_b)
   \<and> edge_count_match (compare_topologies nodes_a edges_a nodes_b edges_b)
        = (fcard edges_a = fcard edges_b)
   \<and> (fcard nodes_a = fcard nodes_b \<and> fcard edges_a = fcard edges_b
        \<and> (nodes_a \<noteq> nodes_b \<or> edges_a \<noteq> edges_b)
        \<longrightarrow> \<not> is_valid (compare_topologies nodes_a edges_a nodes_b edges_b))
   \<and> \<not> is_valid (compare_topologies {|''1'', ''2''|} {|(''1'', ''2'')|}
                     {|''1'', ''2'', ''3''|} {|(''1'', ''2'')|})
   \<and> missing_nodes_in_a (compare_topologies {|''1'', ''2''|} {|(''1'', ''2'')|}
                     {|''1'', ''2'', ''3''|} {|(''1'', ''2'')|}) = {|''3''|}"
proof (intro conjI impI)
  show "is_valid (compare_topologies nodes_a edges_a nodes_b edges_b)
     = (missing_nodes_in_a (compare_topologies nodes_a edges_a nodes_b edges_b) = {||}
        \<and> missing_nodes_in_b (compare_topologies nodes_a edges_a nodes_b edges_b) = {||}
        \<and> missing_edges_in_a (compare_topologies nodes_a edges_a nodes_b edges_b) = {||}
        \<and> missing_edges_in_b (compare_topologies nodes_a edges_a nodes_b edges_b) = {||})"
    by (simp add: compare_topologies_def Let_def)
next
  assume "fcard nodes_a = fcard nodes_b \<and> fcard edges_a = fcard edges_b
        \<and> (nodes_a \<noteq> nodes_b \<or> edges_a \<noteq> edges_b)"
  then show "\<not> is_valid (compare_topologies nodes_a edges_a nodes_b edges_b)"
    by (simp add: compare_valid_iff)
next
  show "\<not> is_valid (compare_topologies {|''1'', ''2''|} {|(''1'', ''2'')|}
                     {|''1'', ''2'', ''3''|} {|(''1'', ''2'')|})"
    using example_nodes_differ by (simp only: compare_valid_iff) blast
next
  show "missing_nodes_in_a (compare_topologies {|''1'', ''2''|} {|(''1'', ''2'')|}
                     {|''1'', ''2'', ''3''|} {|(''1'', ''2'')|}) = {|''3''|}"
    by (simp only: compare_fields example_missing_nodes)
qed (simp_all only: compare_fields)

text \<open>Equal counts, different members: A = ({1,2}, {(1,2)}) against B = ({1,3}, {(1,3)}).\<close>

theorem compare_topologies_report_witness:
  "fcard {|''1'', ''2''|} = fcard {|''1'', ''3''|}
   \<and> fcard {|(''1'', ''2'')|} = fcard {|(''1'', ''3'')|}
   \<and> {|''1'', ''2''|} \<noteq> {|''1'', ''3''|}
   \<and> \<not> is_valid (compare_topologies {|''1'', ''2''|} {|(''1'', ''2'')|}
                     {|''1'', ''3''|} {|(''1'', ''3'')|})"
  using compare_topologies_report [of "{|''1'', ''2''|}" "{|(''1'', ''2'')|}"
      "{|''1'', ''3''|}" "{|(''1'', ''3'')|}"] swapped_counts swapped_nodes_differ
  by blast

end
